theory Spec2Isabelle
  imports Main "HOL-Library.AList"
begin

section \<open>Data model of the decode scheduler\<close>

text \<open>
  The decode scheduler (\<^verbatim>\<open>max/serve/scheduler/decode_scheduler.py\<close>) keeps an
  insertion-ordered dictionary of active requests, a set of free cache slot ids and a FIFO
  queue of preempted requests. The request context, the token generator and the paged cache
  manager are imported classes: the fields the scheduler reads are record fields here, and
  the methods it calls are parameters of the model (record \<open>env\<close>).
\<close>

type_synonym request_id = string

text \<open>
  Modelled from the spec: the request context (\<^verbatim>\<open>InputContext\<close>, imported from
  \<^verbatim>\<open>max.pipelines.core\<close>). Section 3 gives it a cache-slot assignment that is unset
  until claimed, an optional remaining-length budget, and generation state the scheduler
  never inspects: \<open>cache_seq_id = None\<close> is an unassigned context, \<open>max_length = None\<close> a
  request without budget, \<open>progress\<close> the opaque state. Its methods
  \<^verbatim>\<open>compute_num_available_steps\<close> and \<^verbatim>\<open>reset\<close> are parameters (record \<open>env\<close>).
\<close>

record 'a input_context =
  cache_seq_id :: "int option"
  max_length :: "int option"
  progress :: 'a

text \<open>Modelled from the spec: \<^verbatim>\<open>is_assigned_to_cache\<close>, true when a slot is assigned.\<close>

definition is_assigned_to_cache :: "'a input_context \<Rightarrow> bool" where
  "is_assigned_to_cache c = (cache_seq_id c \<noteq> None)"

text \<open>Modelled from the spec: \<^verbatim>\<open>assign_to_cache\<close>, which records the claimed slot in the
  context (the scheduler reads it back as \<^verbatim>\<open>cache_seq_id\<close> right after).\<close>

definition assign_to_cache :: "'a input_context \<Rightarrow> int \<Rightarrow> 'a input_context" where
  "assign_to_cache c i = c\<lparr>cache_seq_id := Some i\<rparr>"

record decode_scheduler_config =
  max_batch_size_tg :: int
  max_forward_steps_tg :: int

text \<open>\<^verbatim>\<open>TextGenerationResponse\<close>: the tokens of one request for one tick and its
  termination flag.\<close>

record 't text_generation_response =
  tokens :: "'t list"
  is_done :: bool

text \<open>A value of an output frame: a token, or the stop sentinel \<^verbatim>\<open>STOP_STREAM\<close>.\<close>

datatype 't stream_item = Token 't | STOP_STREAM

text \<open>What the source raises.\<close>

datatype error =
    RuntimeError    \<comment> \<open>\<^verbatim>\<open>calculate_batch_num_steps\<close> on an empty batch\<close>
  | KeyError        \<comment> \<open>a dictionary lookup, \<^verbatim>\<open>del\<close> or \<^verbatim>\<open>pop\<close> of a missing key\<close>
  | IndexError      \<comment> \<open>a list index out of range\<close>
  | Unassigned      \<comment> \<open>reading \<^verbatim>\<open>cache_seq_id\<close> of a context without a slot\<close>
  | ZMQError        \<comment> \<open>a transport fault of the decode socket, logged and raised again\<close>
  | QueueEmpty      \<comment> \<open>\<^verbatim>\<open>queue.Empty\<close>: nothing to pull\<close>

text \<open>Calls to the external collaborators, in the order the scheduler issues them.\<close>

datatype 'a event =
    is_ExternalClaim: ExternalClaim "int list"
  | is_Prefetch: Prefetch "'a input_context" int bool
  | is_Release: Release "'a input_context"

text \<open>What the decode socket hands over at a \<^verbatim>\<open>get_nowait\<close>: a request, or a
  transport fault. An empty socket raises \<^verbatim>\<open>queue.Empty\<close>.\<close>

datatype 'a delivery = Delivered request_id "'a input_context" | TransportFault

record ('a, 't) scheduler =
  active_batch :: "(request_id \<times> 'a input_context) list"
  available_cache_indices :: "int set"
  preempted_decode :: "(request_id \<times> 'a input_context) list"
  decode_pull_socket :: "'a delivery list"
  response_push_socket :: "(request_id \<rightharpoonup> 't stream_item) list list"
  calls :: "'a event list"

text \<open>
  The configuration and the collaborators' methods. \<open>prefetch\<close> answers from the calls
  issued so far (the cache manager is stateful: a release frees pages), \<open>set_pop\<close> is the
  element \<^verbatim>\<open>set.pop()\<close> removes from a set.
\<close>

record 'a env =
  scheduler_config :: decode_scheduler_config
  max_seq_len :: int
  compute_num_available_steps :: "'a input_context \<Rightarrow> int \<Rightarrow> int"
  reset :: "'a input_context \<Rightarrow> 'a input_context"
  prefetch :: "'a event list \<Rightarrow> 'a input_context \<Rightarrow> int \<Rightarrow> bool"
  set_pop :: "int set \<Rightarrow> int"

section \<open>Step planning\<close>

text \<open>
  The loop of \<^verbatim>\<open>calculate_batch_num_steps\<close> over the values of the active batch, with
  \<open>batch_available_steps\<close> as accumulator. \<open>None\<close> is the early return taken at a member
  without \<open>max_length\<close>.
\<close>

fun batch_available_steps ::
  "('a input_context \<Rightarrow> int \<Rightarrow> int) \<Rightarrow> 'a input_context list \<Rightarrow> int \<Rightarrow> int option" where
  "batch_available_steps cnas [] acc = Some acc"
| "batch_available_steps cnas (d # ds) acc =
     (case max_length d of
        None \<Rightarrow> None
      | Some ml \<Rightarrow>
          (let request_available_steps = cnas d ml in
           batch_available_steps cnas ds
             (if request_available_steps > acc then request_available_steps else acc)))"

definition calculate_batch_num_steps ::
  "'a env \<Rightarrow> (request_id \<times> 'a input_context) list \<Rightarrow> error + int" where
  "calculate_batch_num_steps e batch =
     (if batch = [] then Inl RuntimeError
      else
        (case batch_available_steps (compute_num_available_steps e) (map snd batch) (- 1) of
           None \<Rightarrow> Inr (max_forward_steps_tg (scheduler_config e))
         | Some b \<Rightarrow>
             if b > 0 \<and> b < max_forward_steps_tg (scheduler_config e) then Inr b
             else Inr (max_forward_steps_tg (scheduler_config e))))"

text \<open>
  The step plan as the specification words it (section 4.4): the configured maximum when
  some member has no budget, else the maximum of the members' available steps when that
  is strictly below the configured maximum. It is compared with the code below.
\<close>

definition request_available_steps :: "'a env \<Rightarrow> 'a input_context \<Rightarrow> int" where
  "request_available_steps e d = compute_num_available_steps e d (the (max_length d))"

definition planner_spec :: "'a env \<Rightarrow> (request_id \<times> 'a input_context) list \<Rightarrow> int" where
  "planner_spec e batch =
     (if list_ex (\<lambda>d. max_length d = None) (map snd batch)
      then max_forward_steps_tg (scheduler_config e)
      else
        (let m = Max (set (map (request_available_steps e) (map snd batch))) in
         if m < max_forward_steps_tg (scheduler_config e) then m
         else max_forward_steps_tg (scheduler_config e)))"

text \<open>A concrete environment for examples: the context's \<open>progress\<close> is its current
  length, a reset puts it back to zero and leaves the context without slot assignment
  (section 3: the members of the preempted set hold no cache slot), prefetch succeeds
  when at least one step is asked for, and \<^verbatim>\<open>set.pop()\<close> takes the least element.\<close>

definition example_env :: "int env" where
  "example_env =
     \<lparr>scheduler_config = \<lparr>max_batch_size_tg = 2, max_forward_steps_tg = 10\<rparr>,
      max_seq_len = 100,
      compute_num_available_steps = (\<lambda>c bound. bound - progress c),
      reset = (\<lambda>c. c\<lparr>cache_seq_id := None, progress := 0\<rparr>),
      prefetch = (\<lambda>cs c n. 0 < n),
      set_pop = Min\<rparr>"

definition ctx :: "int option \<Rightarrow> int option \<Rightarrow> int \<Rightarrow> int input_context" where
  "ctx slot ml p = \<lparr>cache_seq_id = slot, max_length = ml, progress = p\<rparr>"

section \<open>The scheduler's state\<close>

text \<open>\<^verbatim>\<open>__init__\<close>: an empty batch, every slot id of \<open>range(max_batch_size_tg)\<close> free,
  nothing preempted. \<open>inbound\<close> is what the decode socket will deliver.\<close>

definition init :: "'a env \<Rightarrow> 'a delivery list \<Rightarrow> ('a, 't) scheduler" where
  "init e inbound =
     \<lparr>active_batch = [],
      available_cache_indices = {0 ..< max_batch_size_tg (scheduler_config e)},
      preempted_decode = [],
      decode_pull_socket = inbound,
      response_push_socket = [],
      calls = []\<rparr>"

text \<open>
  The active batch is an \<^verbatim>\<open>OrderedDict\<close>: an association list in insertion order.
  \<^verbatim>\<open>d[k] = v\<close> is \<open>AList.update\<close> (the value is replaced in place, a new key goes to
  the end), \<^verbatim>\<open>d[k]\<close> is \<open>map_of\<close> (\<open>None\<close> is the \<^verbatim>\<open>KeyError\<close>), \<^verbatim>\<open>del d[k]\<close>
  is \<open>AList.delete\<close>.
\<close>

section \<open>Admission\<close>

definition pull_from_decode_socket ::
  "('a, 't) scheduler \<Rightarrow> error + ((request_id \<times> 'a input_context) \<times> ('a, 't) scheduler)" where
  "pull_from_decode_socket s =
     (case preempted_decode s of
        p # ps \<Rightarrow> Inr (p, s\<lparr>preempted_decode := ps\<rparr>)
      | [] \<Rightarrow>
          (case decode_pull_socket s of
             [] \<Rightarrow> Inl QueueEmpty
           | TransportFault # rest \<Rightarrow> Inl ZMQError
           | Delivered request_id context # rest \<Rightarrow>
               Inr ((request_id, context), s\<lparr>decode_pull_socket := rest\<rparr>)))"

text \<open>The body of the first loop of \<^verbatim>\<open>update_batch\<close> after the pull (lines
  204-209): an unassigned context takes a slot popped from the free set, which is claimed
  with the cache manager; the request is stored in the active batch.\<close>

definition admit_request ::
  "'a env \<Rightarrow> request_id \<Rightarrow> 'a input_context \<Rightarrow> ('a, 't) scheduler \<Rightarrow> ('a, 't) scheduler" where
  "admit_request e request_id context s =
     (if \<not> is_assigned_to_cache context then
        (let i = set_pop e (available_cache_indices s);
             context' = assign_to_cache context i;
             s1 = s\<lparr>available_cache_indices := available_cache_indices s - {i},
                     calls := calls s @ [ExternalClaim [i]]\<rparr>
         in s1\<lparr>active_batch := AList.update request_id context' (active_batch s1)\<rparr>)
      else s\<lparr>active_batch := AList.update request_id context (active_batch s)\<rparr>)"

text \<open>The first loop of \<^verbatim>\<open>update_batch\<close> (lines 198-216). \<^verbatim>\<open>queue.Empty\<close> ends the
  loop, any other exception is raised again.\<close>

function update_batch_fill :: "'a env \<Rightarrow> ('a, 't) scheduler \<Rightarrow> error + ('a, 't) scheduler" where
  "update_batch_fill e s =
     (if available_cache_indices s = {} then Inr s
      else
        (case pull_from_decode_socket s of
           Inl QueueEmpty \<Rightarrow> Inr s
         | Inl err \<Rightarrow> Inl err
         | Inr ((request_id, context), s1) \<Rightarrow>
             update_batch_fill e (admit_request e request_id context s1)))"
  by pat_completeness auto
termination
  by (relation "measure (\<lambda>(e, s). length (preempted_decode s) + length (decode_pull_socket s))")
    (auto simp: pull_from_decode_socket_def admit_request_def Let_def
      split: list.splits delivery.splits)

declare update_batch_fill.simps [simp del]

section \<open>Reservation and preemption\<close>

definition return_to_decode_queue ::
  "'a env \<Rightarrow> request_id \<Rightarrow> 'a input_context \<Rightarrow> ('a, 't) scheduler \<Rightarrow> error + ('a, 't) scheduler" where
  "return_to_decode_queue e request_id data s =
     (case cache_seq_id data of
        None \<Rightarrow> Inl Unassigned
      | Some i \<Rightarrow>
          Inr (s\<lparr>available_cache_indices := insert i (available_cache_indices s),
                 calls := calls s @ [Release data],
                 preempted_decode := preempted_decode s @ [(request_id, reset e data)]\<rparr>))"

text \<open>The number of steps asked of the cache manager for one candidate (lines 226-234).\<close>

definition candidate_num_steps :: "'a env \<Rightarrow> 'a input_context \<Rightarrow> int" where
  "candidate_num_steps e context =
     (let num_available_steps = compute_num_available_steps e context (max_seq_len e) in
      if max_forward_steps_tg (scheduler_config e) < num_available_steps
      then max_forward_steps_tg (scheduler_config e)
      else num_available_steps)"

text \<open>
  The second loop of \<^verbatim>\<open>update_batch\<close> (lines 220-253) over the deque
  \<open>candidate_requests\<close>: \<^verbatim>\<open>popleft\<close> takes the head, \<^verbatim>\<open>pop\<close> takes \<open>last\<close>,
  \<^verbatim>\<open>appendleft\<close> conses. Every prefetch is recorded in \<open>calls\<close> with its answer.
\<close>

function update_batch_reserve ::
  "'a env \<Rightarrow> ('a, 't) scheduler \<Rightarrow> request_id list \<Rightarrow> error + ('a, 't) scheduler" where
  "update_batch_reserve e s [] = Inr s"
| "update_batch_reserve e s (request_id # candidate_requests) =
     (case map_of (active_batch s) request_id of
        None \<Rightarrow> Inl KeyError
      | Some context \<Rightarrow>
          (let num_steps = candidate_num_steps e context;
               ok = prefetch e (calls s) context num_steps;
               s1 = s\<lparr>calls := calls s @ [Prefetch context num_steps ok]\<rparr>
           in
             if \<not> ok then
               (if candidate_requests = [] then
                  (case return_to_decode_queue e request_id context s1 of
                     Inl err \<Rightarrow> Inl err
                   | Inr s2 \<Rightarrow>
                       Inr (s2\<lparr>active_batch := AList.delete request_id (active_batch s2)\<rparr>))
                else
                  (let newest_request_id = last candidate_requests in
                   case map_of (active_batch s1) newest_request_id of
                     None \<Rightarrow> Inl KeyError
                   | Some newest_context \<Rightarrow>
                       (case return_to_decode_queue e newest_request_id newest_context
                               (s1\<lparr>active_batch :=
                                      AList.delete newest_request_id (active_batch s1)\<rparr>) of
                          Inl err \<Rightarrow> Inl err
                        | Inr s2 \<Rightarrow>
                            update_batch_reserve e s2 (request_id # butlast candidate_requests))))
             else update_batch_reserve e s1 candidate_requests))"
  by pat_completeness auto
termination
  by (relation "measure (\<lambda>(e, s, cs). length cs)") auto

declare update_batch_reserve.simps [simp del]

definition update_batch :: "'a env \<Rightarrow> ('a, 't) scheduler \<Rightarrow> error + ('a, 't) scheduler" where
  "update_batch e s =
     (case update_batch_fill e s of
        Inl err \<Rightarrow> Inl err
      | Inr s1 \<Rightarrow> update_batch_reserve e s1 (map fst (active_batch s1)))"

section \<open>Termination reclamation\<close>

text \<open>The loop of \<^verbatim>\<open>_handle_terminated_responses\<close> over the items of the response
  dictionary.\<close>

fun handle_terminated_loop ::
  "(request_id \<times> 't text_generation_response) list \<Rightarrow> ('a, 't) scheduler
     \<Rightarrow> error + ('a, 't) scheduler" where
  "handle_terminated_loop [] s = Inr s"
| "handle_terminated_loop ((request_id, response) # rest) s =
     (if is_done response then
        (case map_of (active_batch s) request_id of
           None \<Rightarrow> Inl KeyError
         | Some context \<Rightarrow>
             (case cache_seq_id context of
                None \<Rightarrow> Inl Unassigned
              | Some cache_id \<Rightarrow>
                  handle_terminated_loop rest
                    (s\<lparr>calls := calls s @ [Release context],
                       available_cache_indices := insert cache_id (available_cache_indices s),
                       active_batch := AList.delete request_id (active_batch s)\<rparr>)))
      else handle_terminated_loop rest s)"

definition handle_terminated_responses ::
  "(request_id \<times> 't text_generation_response) list option \<Rightarrow> ('a, 't) scheduler
     \<Rightarrow> error + ('a, 't) scheduler" where
  "handle_terminated_responses responses s =
     (case responses of
        None \<Rightarrow> Inr s
      | Some rs \<Rightarrow> handle_terminated_loop rs s)"

section \<open>Response stream construction\<close>

type_synonym 't frame = "request_id \<rightharpoonup> 't stream_item"

text \<open>The inner \<^verbatim>\<open>while\<close> of \<^verbatim>\<open>stream_responses_to_frontend\<close>: append empty frames
  until there are \<open>need\<close> of them.\<close>

function pad_frames :: "'t frame list \<Rightarrow> nat \<Rightarrow> 't frame list" where
  "pad_frames stream_responses need =
     (if need > length stream_responses
      then pad_frames (stream_responses @ [Map.empty]) need
      else stream_responses)"
  by pat_completeness auto
termination
  by (relation "measure (\<lambda>(fs, need). need - length fs)") auto

declare pad_frames.simps [simp del]

text \<open>\<^verbatim>\<open>stream_responses[i][request_id] = v\<close>; an index out of range raises.\<close>

definition set_frame ::
  "'t frame list \<Rightarrow> nat \<Rightarrow> request_id \<Rightarrow> 't stream_item \<Rightarrow> error + 't frame list" where
  "set_frame stream_responses i request_id v =
     (if i < length stream_responses
      then Inr (stream_responses[i := (stream_responses ! i)(request_id \<mapsto> v)])
      else Inl IndexError)"

text \<open>The loop over \<^verbatim>\<open>enumerate(response.tokens)\<close>, from index \<open>token_idx\<close> on.\<close>

fun place_tokens ::
  "'t frame list \<Rightarrow> request_id \<Rightarrow> nat \<Rightarrow> 't list \<Rightarrow> error + 't frame list" where
  "place_tokens stream_responses request_id token_idx [] = Inr stream_responses"
| "place_tokens stream_responses request_id token_idx (text_response # rest) =
     (case set_frame stream_responses token_idx request_id (Token text_response) of
        Inl err \<Rightarrow> Inl err
      | Inr fs \<Rightarrow> place_tokens fs request_id (Suc token_idx) rest)"

text \<open>The number of frames one response asks for (line 308).\<close>

definition frames_needed :: "'t text_generation_response \<Rightarrow> nat" where
  "frames_needed response = length (tokens response) + (if is_done response then 1 else 0)"

text \<open>The body of the loop over the items of the response dictionary, and the loop.\<close>

definition stream_one ::
  "'t frame list \<Rightarrow> request_id \<times> 't text_generation_response \<Rightarrow> error + 't frame list" where
  "stream_one stream_responses item =
     (case item of (request_id, response) \<Rightarrow>
        (case place_tokens (pad_frames stream_responses (frames_needed response))
                request_id 0 (tokens response) of
           Inl err \<Rightarrow> Inl err
         | Inr fs \<Rightarrow>
             if is_done response
             then set_frame fs (length (tokens response)) request_id STOP_STREAM
             else Inr fs))"

fun build_frames ::
  "'t frame list \<Rightarrow> (request_id \<times> 't text_generation_response) list
     \<Rightarrow> error + 't frame list" where
  "build_frames stream_responses [] = Inr stream_responses"
| "build_frames stream_responses (item # rest) =
     (case stream_one stream_responses item of
        Inl err \<Rightarrow> Inl err
      | Inr fs \<Rightarrow> build_frames fs rest)"

text \<open>\<^verbatim>\<open>not responses\<close> holds of \<^verbatim>\<open>None\<close> and of the empty dictionary. A message on
  the response socket is one frame sequence.\<close>

definition stream_responses_to_frontend ::
  "(request_id \<times> 't text_generation_response) list option \<Rightarrow> ('a, 't) scheduler
     \<Rightarrow> error + ('a, 't) scheduler" where
  "stream_responses_to_frontend responses s =
     (case responses of
        None \<Rightarrow> Inr s
      | Some [] \<Rightarrow> Inr s
      | Some rs \<Rightarrow>
          (case build_frames [Map.empty] rs of
             Inl err \<Rightarrow> Inl err
           | Inr stream_responses \<Rightarrow>
               Inr (s\<lparr>response_push_socket :=
                        response_push_socket s @ [stream_responses]\<rparr>)))"

text \<open>The frame count as the specification words it (section 4.7): the maximum over the
  responses of the number of tokens, plus one for a terminated request.\<close>

definition frame_count_spec :: "(request_id \<times> 't text_generation_response) list \<Rightarrow> nat" where
  "frame_count_spec rs = Max (set (map (\<lambda>item. frames_needed (snd item)) rs))"

text \<open>Two notions used to state what a frame sequence holds: the frame at an index (empty
  beyond the end of the sequence), and the item a response contributes at an index.\<close>

definition frame_at :: "'t frame list \<Rightarrow> nat \<Rightarrow> 't frame" where
  "frame_at fs i = (if i < length fs then fs ! i else Map.empty)"

definition expected_item :: "'t text_generation_response \<Rightarrow> nat \<Rightarrow> 't stream_item option" where
  "expected_item r i =
     (if i < length (tokens r) then Some (Token (tokens r ! i))
      else if is_done r \<and> i = length (tokens r) then Some STOP_STREAM
      else None)"

text \<open>Example states: two free slots, one preempted request and one request on the decode
  socket; and what admission makes of it.\<close>

definition waiting :: "(int, int) scheduler" where
  "waiting =
     \<lparr>active_batch = [],
      available_cache_indices = {0, 1},
      preempted_decode = [(''R2'', ctx None None 0)],
      decode_pull_socket = [Delivered ''R3'' (ctx None None 0)],
      response_push_socket = [],
      calls = []\<rparr>"

definition admitted :: "(int, int) scheduler" where
  "admitted =
     \<lparr>active_batch = [(''R2'', ctx (Some 0) None 0), (''R3'', ctx (Some 1) None 0)],
      available_cache_indices = {},
      preempted_decode = [],
      decode_pull_socket = [],
      response_push_socket = [],
      calls = [ExternalClaim [0], ExternalClaim [1]]\<rparr>"

text \<open>
  Used to state the outcome of the reservation phase: the scheduler once every member of
  the active batch from position \<open>m\<close> on has been returned to the decode queue, the
  newest first (its slot is free again, its context is reset and queued).
\<close>

definition slot_of :: "request_id \<times> 'a input_context \<Rightarrow> int" where
  "slot_of item = the (cache_seq_id (snd item))"

definition requeued :: "'a env \<Rightarrow> request_id \<times> 'a input_context \<Rightarrow> request_id \<times> 'a input_context" where
  "requeued e item = (fst item, reset e (snd item))"

definition preempt_from :: "'a env \<Rightarrow> nat \<Rightarrow> ('a, 't) scheduler \<Rightarrow> ('a, 't) scheduler" where
  "preempt_from e m s =
     s\<lparr>active_batch := take m (active_batch s),
       available_cache_indices :=
         available_cache_indices s \<union> set (map slot_of (drop m (active_batch s))),
       preempted_decode :=
         preempted_decode s @ map (requeued e) (rev (drop m (active_batch s)))\<rparr>"

text \<open>Further example environments: a cache manager that has room for nothing, one that
  has room once some request has been released, and one that always has room.\<close>

definition tight_env :: "int env" where
  "tight_env =
     example_env\<lparr>scheduler_config := \<lparr>max_batch_size_tg = 1, max_forward_steps_tg = 10\<rparr>,
                 prefetch := (\<lambda>l c n. False)\<rparr>"

definition pressure_env :: "int env" where
  "pressure_env = example_env\<lparr>prefetch := (\<lambda>l c n. list_ex is_Release l)\<rparr>"

definition roomy_env :: "int env" where
  "roomy_env = example_env\<lparr>prefetch := (\<lambda>l c n. True)\<rparr>"

text \<open>Example states of the reservation phase: two active requests, and what is left when
  the newer one has been preempted; one active request, and what is left when it has been
  preempted.\<close>

definition crowded :: "(int, int) scheduler" where
  "crowded =
     \<lparr>active_batch = [(''R1'', ctx (Some 0) None 3), (''R2'', ctx (Some 1) None 4)],
      available_cache_indices = {},
      preempted_decode = [],
      decode_pull_socket = [],
      response_push_socket = [],
      calls = []\<rparr>"

definition crowded_relieved :: "(int, int) scheduler" where
  "crowded_relieved =
     \<lparr>active_batch = [(''R1'', ctx (Some 0) None 3)],
      available_cache_indices = {1},
      preempted_decode = [(''R2'', ctx None None 0)],
      decode_pull_socket = [],
      response_push_socket = [],
      calls = [Prefetch (ctx (Some 0) None 3) 10 False, Release (ctx (Some 1) None 4),
               Prefetch (ctx (Some 0) None 3) 10 True]\<rparr>"

definition lonely :: "(int, int) scheduler" where
  "lonely =
     \<lparr>active_batch = [(''R1'', ctx (Some 0) None 3)],
      available_cache_indices = {},
      preempted_decode = [],
      decode_pull_socket = [],
      response_push_socket = [],
      calls = []\<rparr>"

definition lonely_preempted :: "(int, int) scheduler" where
  "lonely_preempted =
     \<lparr>active_batch = [],
      available_cache_indices = {0},
      preempted_decode = [(''R1'', ctx None None 0)],
      decode_pull_socket = [],
      response_push_socket = [],
      calls = [Prefetch (ctx (Some 0) None 3) 10 False, Release (ctx (Some 0) None 3)]\<rparr>"



text \<open>Used to state the outcome of reclamation: the ids of the responses marked done, in
  the order of the response dictionary, and the scheduler once these requests have been
  released (looked up in the active batch \<open>al\<close> the tick started with).\<close>

definition terminated_ids :: "(request_id \<times> 't text_generation_response) list \<Rightarrow> request_id list" where
  "terminated_ids rs = map fst (filter (\<lambda>item. is_done (snd item)) rs)"

definition reclaimed ::
  "request_id list \<Rightarrow> ('a, 't) scheduler \<Rightarrow> ('a, 't) scheduler" where
  "reclaimed ids s =
     s\<lparr>calls := calls s @ map (\<lambda>rid. Release (the (map_of (active_batch s) rid))) ids,
       available_cache_indices :=
         available_cache_indices s \<union>
           set (map (\<lambda>rid. the (cache_seq_id (the (map_of (active_batch s) rid)))) ids),
       active_batch := filter (\<lambda>item. fst item \<notin> set ids) (active_batch s)\<rparr>"

text \<open>Example: after generation the first of two active requests is done.\<close>

definition finishing :: "(request_id \<times> int text_generation_response) list" where
  "finishing =
     [(''R2'', \<lparr>tokens = [7, 8], is_done = True\<rparr>), (''R3'', \<lparr>tokens = [9, 9], is_done = False\<rparr>)]"

definition finished :: "(int, int) scheduler" where
  "finished =
     \<lparr>active_batch = [(''R3'', ctx (Some 1) None 0)],
      available_cache_indices = {0},
      preempted_decode = [],
      decode_pull_socket = [],
      response_push_socket = [],
      calls = [ExternalClaim [0], ExternalClaim [1], Release (ctx (Some 0) None 0)]\<rparr>"

section \<open>Slot conservation\<close>

text \<open>The slot ids held by the members of the active batch.\<close>

definition claimed_slots :: "('a, 't) scheduler \<Rightarrow> int set" where
  "claimed_slots s = set (map slot_of (active_batch s))"


text \<open>
  The partition itself: the keys of the active batch are distinct (it is a dictionary),
  every member holds a slot, no two members hold the same slot, and the free and the
  claimed slot ids split \<open>range(max_batch_size_tg)\<close>.
\<close>

definition slots_partitioned :: "'a env \<Rightarrow> ('a, 't) scheduler \<Rightarrow> bool" where
  "slots_partitioned e s =
     (distinct (map fst (active_batch s)) \<and>
      list_all (\<lambda>item. cache_seq_id (snd item) \<noteq> None) (active_batch s) \<and>
      distinct (map slot_of (active_batch s)) \<and>
      available_cache_indices s \<inter> claimed_slots s = {} \<and>
      available_cache_indices s \<union> claimed_slots s
        = {0 ..< max_batch_size_tg (scheduler_config e)})"

text \<open>The requests admission can pull: the preempted queue, then the deliveries of the
  decode socket.\<close>

fun delivered :: "'a delivery list \<Rightarrow> (request_id \<times> 'a input_context) list" where
  "delivered [] = []"
| "delivered (Delivered request_id context # rest) = (request_id, context) # delivered rest"
| "delivered (TransportFault # rest) = delivered rest"

definition waiting_requests :: "('a, 't) scheduler \<Rightarrow> (request_id \<times> 'a input_context) list" where
  "waiting_requests s = preempted_decode s @ delivered (decode_pull_socket s)"

text \<open>The condition under which admission keeps the partition: the waiting requests hold
  no slot assignment, and their ids are distinct and not ids of active requests.\<close>

definition arrive_unassigned :: "('a, 't) scheduler \<Rightarrow> bool" where
  "arrive_unassigned s =
     (list_all (\<lambda>item. cache_seq_id (snd item) = None) (waiting_requests s) \<and>
      distinct (map fst (active_batch s) @ map fst (waiting_requests s)))"

text \<open>What section 3 says of the preempted set ("its members hold no cache slot"), as a
  condition on the context's \<^verbatim>\<open>reset\<close>: it leaves the context without assignment.\<close>

definition reset_unassigns :: "'a env \<Rightarrow> bool" where
  "reset_unassigns e = (\<forall>c. cache_seq_id (reset e c) = None)"

text \<open>\<^verbatim>\<open>set.pop()\<close> on a non-empty (finite) set removes one of its elements.\<close>

definition pop_takes_member :: "'a env \<Rightarrow> bool" where
  "pop_takes_member e = (\<forall>S. finite S \<longrightarrow> S \<noteq> {} \<longrightarrow> set_pop e S \<in> S)"





text \<open>Example: the state \<open>waiting\<close> after \<^verbatim>\<open>update_batch\<close> with room for both requests.\<close>

definition reserved :: "(int, int) scheduler" where
  "reserved =
     admitted\<lparr>calls := calls admitted @
       [Prefetch (ctx (Some 0) None 0) 10 True, Prefetch (ctx (Some 1) None 0) 10 True]\<rparr>"

section \<open>Step planning: results\<close>

lemma batch_available_steps_None:
  "(batch_available_steps cnas ds acc = None) = (\<exists>d \<in> set ds. max_length d = None)"
  by (induction ds arbitrary: acc) (auto split: option.splits simp: Let_def)

lemma Max_insert_max:
  "finite S \<Longrightarrow> Max (insert (max (a::int) b) S) = Max (insert a (insert b S))"
proof (cases "S = {}")
  case True
  then show ?thesis by simp
next
  case False
  assume "finite S"
  with False show ?thesis by (simp add: max.assoc)
qed

lemma batch_available_steps_Some:
  "\<forall>d \<in> set ds. max_length d \<noteq> None \<Longrightarrow>
   batch_available_steps cnas ds acc =
     Some (Max (insert acc (set (map (\<lambda>d. cnas d (the (max_length d))) ds))))"
proof (induction ds arbitrary: acc)
  case Nil
  show ?case by simp
next
  case (Cons d ds)
  then obtain ml where ml: "max_length d = Some ml" by auto
  let ?S = "set (map (\<lambda>d. cnas d (the (max_length d))) ds)"
  have "finite ?S" by simp
  then have eq: "Max (insert (max acc (cnas d ml)) ?S) = Max (insert acc (insert (cnas d ml) ?S))"
    by (rule Max_insert_max)
  have "(if cnas d ml > acc then cnas d ml else acc) = max acc (cnas d ml)"
    by (simp add: max_def)
  then show ?case using Cons ml eq
    by (simp add: Let_def del: set_map Max_insert)
qed

lemma calculate_batch_num_steps_cases:
  assumes "batch \<noteq> []"
  shows "calculate_batch_num_steps e batch = Inr (max_forward_steps_tg (scheduler_config e)) \<or>
    (\<exists>b. calculate_batch_num_steps e batch = Inr b \<and> 0 < b \<and>
       b < max_forward_steps_tg (scheduler_config e))"
  using assms by (simp add: calculate_batch_num_steps_def split: option.splits)

text \<open>
  Claim C3, as stated: for a non-empty batch the planner returns what the specification
  words (\<open>planner_spec\<close>). It fails: the code returns the maximum only when it is also
  strictly positive. One member with budget 5 and current length 5 has 0 available steps;
  the specification's plan is 0, the code answers the configured maximum 10.
\<close>

theorem step_plan_counterexample:
  "calculate_batch_num_steps example_env [(''r1'', ctx (Some 0) (Some 5) 5)] = Inr 10
   \<and> planner_spec example_env [(''r1'', ctx (Some 0) (Some 5) 5)] = 0"
  by (simp add: calculate_batch_num_steps_def planner_spec_def example_env_def ctx_def
      request_available_steps_def)

text \<open>
  Claim C3, amended: for every non-empty active batch the planner returns the configured
  maximum if some member has no \<open>max_length\<close>; otherwise it returns the maximum of the
  members' available steps when that maximum is strictly positive and strictly less than
  the configured maximum, and the configured maximum in every other case.
\<close>

theorem step_plan_amended:
  assumes "batch \<noteq> []"
  shows "calculate_batch_num_steps e batch =
    Inr (if list_ex (\<lambda>d. max_length d = None) (map snd batch)
         then max_forward_steps_tg (scheduler_config e)
         else
           (let m = Max (set (map (request_available_steps e) (map snd batch))) in
            if 0 < m \<and> m < max_forward_steps_tg (scheduler_config e) then m
            else max_forward_steps_tg (scheduler_config e)))"
proof (cases "\<exists>d \<in> set (map snd batch). max_length d = None")
  case True
  then have "batch_available_steps (compute_num_available_steps e) (map snd batch) (- 1) = None"
    by (simp only: batch_available_steps_None)
  with True assms show ?thesis
    by (simp add: calculate_batch_num_steps_def list_ex_iff)
next
  case False
  let ?vs = "map (request_available_steps e) (map snd batch)"
  let ?m = "Max (set ?vs)"
  have ne: "set ?vs \<noteq> {}" using assms by simp
  have vs: "map (\<lambda>d. compute_num_available_steps e d (the (max_length d))) (map snd batch) = ?vs"
    by (simp add: request_available_steps_def)
  from False have "\<forall>d \<in> set (map snd batch). max_length d \<noteq> None" by simp
  then have b: "batch_available_steps (compute_num_available_steps e) (map snd batch) (- 1)
      = Some (Max (insert (- 1) (set ?vs)))"
    using batch_available_steps_Some [of "map snd batch" "compute_num_available_steps e" "- 1"]
    by (simp only: vs)
  have mx: "Max (insert (- 1) (set ?vs)) = max (- 1) ?m"
    using ne by simp
  have nex: "\<not> list_ex (\<lambda>d. max_length d = None) (map snd batch)"
    using False by (simp add: list_ex_iff)
  show ?thesis
    unfolding calculate_batch_num_steps_def using assms nex
    by (simp only: b mx option.case Let_def if_False) (simp add: max_def)
qed

theorem step_plan_amended_witness:
  "[(''r1'', ctx (Some 0) (Some 7) 4), (''r2'', ctx (Some 1) (Some 5) 4)] \<noteq> []
   \<and> calculate_batch_num_steps example_env
        [(''r1'', ctx (Some 0) (Some 7) 4), (''r2'', ctx (Some 1) (Some 5) 4)] = Inr 3"
  using step_plan_amended
    [of "[(''r1'', ctx (Some 0) (Some 7) 4), (''r2'', ctx (Some 1) (Some 5) 4)]" example_env]
  by (simp add: example_env_def ctx_def request_available_steps_def)

text \<open>
  Claim C8: for every non-empty active batch the planner returns a step count, and it
  never exceeds the configured \<open>max_forward_steps_tg\<close>.
\<close>

theorem step_plan_bound:
  assumes "batch \<noteq> []"
  shows "\<exists>n. calculate_batch_num_steps e batch = Inr n
           \<and> n \<le> max_forward_steps_tg (scheduler_config e)"
  using calculate_batch_num_steps_cases [OF assms, of e] by auto

theorem step_plan_bound_witness:
  "[(''r1'', ctx (Some 0) (Some 7) 4)] \<noteq> []
   \<and> (\<exists>n. calculate_batch_num_steps example_env [(''r1'', ctx (Some 0) (Some 7) 4)] = Inr n
          \<and> n \<le> max_forward_steps_tg (scheduler_config example_env))"
  using step_plan_bound [of "[(''r1'', ctx (Some 0) (Some 7) 4)]" example_env]
  by simp

text \<open>
  Claim C9: step planning raises (\<^verbatim>\<open>RuntimeError\<close>) exactly when the active batch is
  empty; on every non-empty batch it returns a step count and raises nothing.
\<close>

theorem step_plan_raises_iff_empty:
  "(calculate_batch_num_steps e batch = Inl RuntimeError) = (batch = [])
   \<and> ((\<exists>n. calculate_batch_num_steps e batch = Inr n) = (batch \<noteq> []))
   \<and> ((\<exists>err. calculate_batch_num_steps e batch = Inl err) = (batch = []))"
  by (auto simp: calculate_batch_num_steps_def split: option.splits)

section \<open>Response stream construction: results\<close>

lemma pad_frames_eq: "pad_frames fs n = fs @ replicate (n - length fs) Map.empty"
proof (induction fs n rule: pad_frames.induct)
  case (1 fs n)
  show ?case
  proof (cases "n > length fs")
    case True
    then have e: "n - length fs = Suc (n - Suc (length fs))" by simp
    have "pad_frames fs n = pad_frames (fs @ [Map.empty]) n"
      using True by (subst pad_frames.simps) simp
    also have "\<dots> = (fs @ [Map.empty]) @ replicate (n - length (fs @ [Map.empty])) Map.empty"
      using 1 True by simp
    also have "\<dots> = fs @ replicate (n - length fs) Map.empty"
      by (simp only: e append_assoc length_append list.size replicate_Suc) simp
    finally show ?thesis .
  next
    case False
    then show ?thesis by (subst pad_frames.simps) simp
  qed
qed

lemma place_tokens_ok:
  "idx + length ts \<le> length fs \<Longrightarrow>
   \<exists>fs'. place_tokens fs rid idx ts = Inr fs' \<and> length fs' = length fs \<and>
     (\<forall>i < length fs. fs' ! i =
        (if idx \<le> i \<and> i < idx + length ts then (fs ! i)(rid \<mapsto> Token (ts ! (i - idx)))
         else fs ! i))"
proof (induction ts arbitrary: fs idx)
  case Nil
  then show ?case by auto
next
  case (Cons t ts)
  let ?fs1 = "fs[idx := (fs ! idx)(rid \<mapsto> Token t)]"
  have idx: "idx < length fs" using Cons.prems by simp
  then have s: "set_frame fs idx rid (Token t) = Inr ?fs1" by (simp add: set_frame_def)
  have "Suc idx + length ts \<le> length ?fs1" using Cons.prems by simp
  from Cons.IH [OF this] obtain fs' where
    p: "place_tokens ?fs1 rid (Suc idx) ts = Inr fs'" and
    l: "length fs' = length ?fs1" and
    c: "\<forall>i < length ?fs1. fs' ! i =
        (if Suc idx \<le> i \<and> i < Suc idx + length ts then (?fs1 ! i)(rid \<mapsto> Token (ts ! (i - Suc idx)))
         else ?fs1 ! i)" by blast
  have "fs' ! i =
        (if idx \<le> i \<and> i < idx + length (t # ts) then (fs ! i)(rid \<mapsto> Token ((t # ts) ! (i - idx)))
         else fs ! i)" if i: "i < length fs" for i
  proof (cases "i = idx")
    case True
    with c i show ?thesis by simp
  next
    case False
    have ci: "fs' ! i = (if Suc idx \<le> i \<and> i < Suc idx + length ts then (fs ! i)(rid \<mapsto> Token (ts ! (i - Suc idx))) else fs ! i)"
      using c i False by simp
    show ?thesis
    proof (cases "idx \<le> i \<and> i < idx + length (t # ts)")
      case True
      with False obtain k where k: "i - idx = Suc k" "i - Suc idx = k" by (cases "i - idx") auto
      from True False have "Suc idx \<le> i \<and> i < Suc idx + length ts" by simp
      with ci True k show ?thesis by simp
    next
      case F2: False
      then have n: "\<not> (Suc idx \<le> i \<and> i < Suc idx + length ts)" by auto
      have "fs' ! i = fs ! i" using ci n by (simp only: if_False)
      then show ?thesis using F2 by (simp only: if_False)
    qed
  qed
  with s p l show ?case by simp
qed

lemma stream_one_ok:
  "\<exists>fs'. stream_one fs (rid, r) = Inr fs' \<and> length fs' = max (length fs) (frames_needed r) \<and>
     (\<forall>i < length fs'. fs' ! i =
        (case expected_item r i of None \<Rightarrow> frame_at fs i
         | Some v \<Rightarrow> (frame_at fs i)(rid \<mapsto> v)))"
proof -
  let ?p = "pad_frames fs (frames_needed r)"
  have lp: "length ?p = max (length fs) (frames_needed r)"
    by (simp add: pad_frames_eq)
  have cp: "?p ! i = frame_at fs i" if "i < length ?p" for i
    using that by (auto simp: pad_frames_eq frame_at_def nth_append)
  have "0 + length (tokens r) \<le> length ?p"
    using lp by (simp add: frames_needed_def)
  from place_tokens_ok [OF this, of rid] obtain fs1 where
    p: "place_tokens ?p rid 0 (tokens r) = Inr fs1" and
    l1: "length fs1 = length ?p" and
    c1: "\<forall>i < length ?p. fs1 ! i =
        (if i < length (tokens r) then (?p ! i)(rid \<mapsto> Token (tokens r ! i)) else ?p ! i)"
    by auto
  show ?thesis
  proof (cases "is_done r")
    case False
    have "stream_one fs (rid, r) = Inr fs1" using p False by (simp add: stream_one_def)
    moreover have "\<forall>i < length fs1. fs1 ! i =
        (case expected_item r i of None \<Rightarrow> frame_at fs i | Some v \<Rightarrow> (frame_at fs i)(rid \<mapsto> v))"
      using c1 l1 cp False by (simp add: expected_item_def)
    ultimately show ?thesis using l1 lp by simp
  next
    case True
    let ?n = "length (tokens r)"
    let ?fs2 = "fs1[?n := (fs1 ! ?n)(rid \<mapsto> STOP_STREAM)]"
    have n: "?n < length fs1" using l1 lp True by (simp add: frames_needed_def)
    then have "stream_one fs (rid, r) = Inr ?fs2"
      using p True by (simp add: stream_one_def set_frame_def)
    moreover have "\<forall>i < length ?fs2. ?fs2 ! i =
        (case expected_item r i of None \<Rightarrow> frame_at fs i | Some v \<Rightarrow> (frame_at fs i)(rid \<mapsto> v))"
    proof (intro allI impI)
      fix i assume i: "i < length ?fs2"
      show "?fs2 ! i = (case expected_item r i of None \<Rightarrow> frame_at fs i | Some v \<Rightarrow> (frame_at fs i)(rid \<mapsto> v))"
      proof (cases "i = ?n")
        case True
        with n c1 l1 cp \<open>is_done r\<close> show ?thesis by (simp add: expected_item_def)
      next
        case False
        with i c1 l1 cp \<open>is_done r\<close> show ?thesis by (simp add: expected_item_def)
      qed
    qed
    ultimately show ?thesis using l1 lp by simp
  qed
qed


lemma frame_at_stream_one:
  assumes "stream_one fs (rid0, r0) = Inr fs1"
  shows "frame_at fs1 i rid =
     (if rid = rid0
      then (case expected_item r0 i of None \<Rightarrow> frame_at fs i rid0 | Some v \<Rightarrow> Some v)
      else frame_at fs i rid)"
proof -
  from stream_one_ok [of fs rid0 r0] assms have
    l: "length fs1 = max (length fs) (frames_needed r0)" and
    c: "\<forall>i < length fs1. fs1 ! i =
        (case expected_item r0 i of None \<Rightarrow> frame_at fs i
         | Some v \<Rightarrow> (frame_at fs i)(rid0 \<mapsto> v))" by auto
  show ?thesis
  proof (cases "i < length fs1")
    case True
    with c have "frame_at fs1 i = (case expected_item r0 i of None \<Rightarrow> frame_at fs i
         | Some v \<Rightarrow> (frame_at fs i)(rid0 \<mapsto> v))" by (simp add: frame_at_def)
    then show ?thesis by (simp split: option.splits)
  next
    case False
    with l have "\<not> i < length fs" "\<not> i < frames_needed r0" by auto
    then have "frame_at fs i = Map.empty" "expected_item r0 i = None" "frame_at fs1 i = Map.empty"
      using False by (auto simp: frame_at_def expected_item_def frames_needed_def split: if_splits)
    then show ?thesis by simp
  qed
qed

lemma build_frames_ok:
  "distinct (map fst rs) \<Longrightarrow>
   \<exists>fs'. build_frames fs rs = Inr fs' \<and>
     length fs' = fold (\<lambda>item n. max n (frames_needed (snd item))) rs (length fs) \<and>
     (\<forall>i rid. frame_at fs' i rid =
        (case map_of rs rid of
           None \<Rightarrow> frame_at fs i rid
         | Some r \<Rightarrow> (case expected_item r i of None \<Rightarrow> frame_at fs i rid | Some v \<Rightarrow> Some v)))"
proof (induction rs arbitrary: fs)
  case Nil
  then show ?case by simp
next
  case (Cons item rs)
  obtain rid0 r0 where item: "item = (rid0, r0)" by (cases item)
  from stream_one_ok [of fs rid0 r0] obtain fs1 where
    s1: "stream_one fs (rid0, r0) = Inr fs1" and
    l1: "length fs1 = max (length fs) (frames_needed r0)" by blast
  have d: "distinct (map fst rs)" and notin: "rid0 \<notin> fst ` set rs"
    using Cons.prems item by auto
  from Cons.IH [OF d, of fs1] obtain fs' where
    b: "build_frames fs1 rs = Inr fs'" and
    l: "length fs' = fold (\<lambda>item n. max n (frames_needed (snd item))) rs (length fs1)" and
    c: "\<forall>i rid. frame_at fs' i rid =
        (case map_of rs rid of
           None \<Rightarrow> frame_at fs1 i rid
         | Some r \<Rightarrow> (case expected_item r i of None \<Rightarrow> frame_at fs1 i rid | Some v \<Rightarrow> Some v))"
    by blast
  have m0: "map_of rs rid0 = None" using notin by (simp add: map_of_eq_None_iff)
  have "frame_at fs' i rid =
        (case map_of (item # rs) rid of
           None \<Rightarrow> frame_at fs i rid
         | Some r \<Rightarrow> (case expected_item r i of None \<Rightarrow> frame_at fs i rid | Some v \<Rightarrow> Some v))"
    for i rid
  proof (cases "rid = rid0")
    case True
    show ?thesis unfolding True using c m0 item frame_at_stream_one [OF s1, of i rid0]
      by (simp split: option.splits)
  next
    case False
    then show ?thesis using c item frame_at_stream_one [OF s1, of i rid]
      by (simp split: option.splits)
  qed
  then show ?case using b l l1 s1 item by simp
qed

lemma fold_max_needed:
  "rs \<noteq> [] \<Longrightarrow>
   fold (\<lambda>item n. max n (frames_needed (snd item))) rs k = max k (frame_count_spec rs)"
proof (induction rs arbitrary: k)
  case Nil
  then show ?case by simp
next
  case (Cons item rs)
  show ?case
  proof (cases "rs = []")
    case True
    then show ?thesis by (simp add: frame_count_spec_def)
  next
    case False
    then have "set (map (\<lambda>item. frames_needed (snd item)) rs) \<noteq> {}" by simp
    then have "frame_count_spec (item # rs) = max (frames_needed (snd item)) (frame_count_spec rs)"
      by (simp add: frame_count_spec_def)
    with Cons.IH [OF False] show ?thesis by (simp add: max.assoc)
  qed
qed

text \<open>
  Claim C4, as stated: the frame count equals the maximum over the responses of the number
  of tokens plus one for a terminated request (\<open>frame_count_spec\<close>). It fails: the frame
  sequence starts with one empty frame. For one response without tokens that has not
  terminated the maximum is 0, and the message emitted holds one (empty) frame.
\<close>

theorem stream_framing_counterexample:
  "stream_responses_to_frontend (Some [(''r1'', \<lparr>tokens = ([]::int list), is_done = False\<rparr>)])
      (init example_env [])
     = Inr ((init example_env [])\<lparr>response_push_socket := [[Map.empty]]\<rparr>)
   \<and> frame_count_spec [(''r1'', \<lparr>tokens = ([]::int list), is_done = False\<rparr>)] = 0"
  by (simp add: stream_responses_to_frontend_def stream_one_def frames_needed_def
      frame_count_spec_def init_def pad_frames.simps [of _ 0])

text \<open>
  Claim C4, amended: nothing is emitted for an absent or empty response set. For a
  non-empty one (a dictionary: its keys are distinct) exactly one message is appended to
  the response channel; its frame count is the maximum over the responses of tokens
  produced plus one if terminated, and at least one; the \<open>i\<close>-th token of each request is
  in frame \<open>i\<close>; a terminated request has the stop sentinel in the frame after its last
  token; and a request is absent from every frame at or beyond the number of frames it
  asks for (its token count, plus one if terminated).
\<close>

theorem stream_framing:
  "stream_responses_to_frontend None s = Inr s \<and>
   stream_responses_to_frontend (Some []) s = Inr s \<and>
   (rs \<noteq> [] \<and> distinct (map fst rs) \<longrightarrow>
     (\<exists>frames.
        stream_responses_to_frontend (Some rs) s =
          Inr (s\<lparr>response_push_socket := response_push_socket s @ [frames]\<rparr>) \<and>
        length frames = max 1 (frame_count_spec rs) \<and>
        (\<forall>(rid, r) \<in> set rs.
           (\<forall>i < length (tokens r). (frames ! i) rid = Some (Token (tokens r ! i))) \<and>
           (is_done r \<longrightarrow> (frames ! length (tokens r)) rid = Some STOP_STREAM) \<and>
           (\<forall>i < length frames. frames_needed r \<le> i \<longrightarrow> (frames ! i) rid = None))))"
proof (intro conjI impI)
  show "stream_responses_to_frontend None s = Inr s"
    by (simp add: stream_responses_to_frontend_def)
  show "stream_responses_to_frontend (Some []) s = Inr s"
    by (simp add: stream_responses_to_frontend_def)
next
  assume a: "rs \<noteq> [] \<and> distinct (map fst rs)"
  then have ne: "rs \<noteq> []" and d: "distinct (map fst rs)" by auto
  from build_frames_ok [OF d, of "[Map.empty]"] obtain frames where
    b: "build_frames [Map.empty] rs = Inr frames" and
    l: "length frames = fold (\<lambda>item n. max n (frames_needed (snd item))) rs (length [Map.empty])" and
    c: "\<forall>i rid. frame_at frames i rid =
        (case map_of rs rid of
           None \<Rightarrow> frame_at [Map.empty] i rid
         | Some r \<Rightarrow> (case expected_item r i of None \<Rightarrow> frame_at [Map.empty] i rid | Some v \<Rightarrow> Some v))"
    by auto
  have len: "length frames = max 1 (frame_count_spec rs)"
    using l fold_max_needed [OF ne, of 1] by simp
  have c': "frame_at frames i rid = expected_item r i" if "map_of rs rid = Some r" for i rid r
  proof -
    have "frame_at frames i rid =
        (case expected_item r i of None \<Rightarrow> frame_at [Map.empty] i rid | Some v \<Rightarrow> Some v)"
      using c that by simp
    then show ?thesis by (simp add: frame_at_def split: option.splits)
  qed
  have emit: "stream_responses_to_frontend (Some rs) s =
          Inr (s\<lparr>response_push_socket := response_push_socket s @ [frames]\<rparr>)"
    using ne b by (cases rs) (simp_all add: stream_responses_to_frontend_def)
  have items: "(\<forall>i < length (tokens r). (frames ! i) rid = Some (Token (tokens r ! i))) \<and>
           (is_done r \<longrightarrow> (frames ! length (tokens r)) rid = Some STOP_STREAM) \<and>
           (\<forall>i < length frames. frames_needed r \<le> i \<longrightarrow> (frames ! i) rid = None)"
    if mem: "(rid, r) \<in> set rs" for rid r
  proof -
    have m: "map_of rs rid = Some r" using mem d by simp
    have "frames_needed r \<le> frame_count_spec rs"
      unfolding frame_count_spec_def using mem by (intro Max_ge) force+
    then have n: "frames_needed r \<le> length frames" using len by simp
    have 1: "(frames ! i) rid = Some (Token (tokens r ! i))" if "i < length (tokens r)" for i
    proof -
      have "i < length frames" using that n by (simp add: frames_needed_def)
      then have "(frames ! i) rid = frame_at frames i rid" by (simp add: frame_at_def)
      then show ?thesis using c' [OF m, of i] that by (simp add: expected_item_def)
    qed
    have 2: "(frames ! length (tokens r)) rid = Some STOP_STREAM" if "is_done r"
    proof -
      have "length (tokens r) < length frames" using that n by (simp add: frames_needed_def)
      then have "(frames ! length (tokens r)) rid = frame_at frames (length (tokens r)) rid"
        by (simp add: frame_at_def)
      then show ?thesis using c' [OF m, of "length (tokens r)"] that by (simp add: expected_item_def)
    qed
    have 3: "(frames ! i) rid = None" if "i < length frames" "frames_needed r \<le> i" for i
    proof -
      have "(frames ! i) rid = frame_at frames i rid" using that by (simp add: frame_at_def)
      then show ?thesis using c' [OF m, of i] that
        by (auto simp: expected_item_def frames_needed_def split: if_splits)
    qed
    from 1 2 3 show ?thesis by blast
  qed
  show "\<exists>frames.
        stream_responses_to_frontend (Some rs) s =
          Inr (s\<lparr>response_push_socket := response_push_socket s @ [frames]\<rparr>) \<and>
        length frames = max 1 (frame_count_spec rs) \<and>
        (\<forall>(rid, r) \<in> set rs.
           (\<forall>i < length (tokens r). (frames ! i) rid = Some (Token (tokens r ! i))) \<and>
           (is_done r \<longrightarrow> (frames ! length (tokens r)) rid = Some STOP_STREAM) \<and>
           (\<forall>i < length frames. frames_needed r \<le> i \<longrightarrow> (frames ! i) rid = None))"
    using emit len items by (intro exI [of _ frames]) auto
qed

theorem stream_framing_witness:
  "[(''A'', \<lparr>tokens = [11, 12, 13::int], is_done = True\<rparr>),
    (''B'', \<lparr>tokens = [21, 22, 23, 24, 25], is_done = False\<rparr>)] \<noteq> []
   \<and> distinct (map fst [(''A'', \<lparr>tokens = [11, 12, 13::int], is_done = True\<rparr>),
    (''B'', \<lparr>tokens = [21, 22, 23, 24, 25], is_done = False\<rparr>)])
   \<and> (\<exists>frames.
        stream_responses_to_frontend
          (Some [(''A'', \<lparr>tokens = [11, 12, 13::int], is_done = True\<rparr>),
                 (''B'', \<lparr>tokens = [21, 22, 23, 24, 25], is_done = False\<rparr>)])
          (init example_env []) =
          Inr ((init example_env [])\<lparr>response_push_socket := [frames]\<rparr>) \<and>
        length frames = 5 \<and>
        (frames ! 2) ''A'' = Some (Token 13) \<and>
        (frames ! 3) ''A'' = Some STOP_STREAM \<and>
        (frames ! 4) ''A'' = None \<and>
        (frames ! 4) ''B'' = Some (Token 25))"
proof -
  let ?rs = "[(''A'', \<lparr>tokens = [11, 12, 13::int], is_done = True\<rparr>),
    (''B'', \<lparr>tokens = [21, 22, 23, 24, 25], is_done = False\<rparr>)]"
  let ?s = "init example_env [] :: (int, int) scheduler"
  from stream_framing [of ?s ?rs] obtain frames where
    e: "stream_responses_to_frontend (Some ?rs) ?s =
          Inr (?s\<lparr>response_push_socket := response_push_socket ?s @ [frames]\<rparr>)" and
    l: "length frames = max 1 (frame_count_spec ?rs)" and
    c: "\<forall>(rid, r) \<in> set ?rs.
           (\<forall>i < length (tokens r). (frames ! i) rid = Some (Token (tokens r ! i))) \<and>
           (is_done r \<longrightarrow> (frames ! length (tokens r)) rid = Some STOP_STREAM) \<and>
           (\<forall>i < length frames. frames_needed r \<le> i \<longrightarrow> (frames ! i) rid = None)"
    by auto
  have l5: "length frames = 5" using l by (simp add: frame_count_spec_def frames_needed_def)
  have "(frames ! 2) ''A'' = Some (Token 13)"
    using c by (simp add: eval_nat_numeral less_Suc_eq)
  moreover have "(frames ! 3) ''A'' = Some STOP_STREAM"
    using c by (simp add: eval_nat_numeral)
  moreover have "(frames ! 4) ''A'' = None"
    using c l5 by (simp add: frames_needed_def)
  moreover have "(frames ! 4) ''B'' = Some (Token 25)"
    using c by (simp add: eval_nat_numeral less_Suc_eq)
  moreover have "response_push_socket ?s = []" by (simp add: init_def)
  ultimately show ?thesis using e l5 by auto
qed

section \<open>Admission: results\<close>

lemma pull_cases:
  "pull_from_decode_socket s = Inr (item, s1) \<Longrightarrow>
     (\<exists>ps. preempted_decode s = item # ps \<and> s1 = s\<lparr>preempted_decode := ps\<rparr>) \<or>
     (\<exists>rest. preempted_decode s = [] \<and>
        decode_pull_socket s = Delivered (fst item) (snd item) # rest \<and>
        s1 = s\<lparr>decode_pull_socket := rest\<rparr>)"
  by (auto simp: pull_from_decode_socket_def split: list.splits delivery.splits)

lemma admit_request_queues [simp]:
  "preempted_decode (admit_request e rid c s) = preempted_decode s"
  "decode_pull_socket (admit_request e rid c s) = decode_pull_socket s"
  by (simp_all add: admit_request_def Let_def)

lemma admit_request_keys:
  "map fst (active_batch (admit_request e rid c s)) =
     (if rid \<in> set (map fst (active_batch s)) then map fst (active_batch s)
      else map fst (active_batch s) @ [rid])"
  by (simp add: admit_request_def Let_def update_keys)

lemma update_batch_fill_cases:
  assumes "update_batch_fill e s = Inr s'"
  shows "s' = s \<or>
    (\<exists>item s1. available_cache_indices s \<noteq> {} \<and>
       pull_from_decode_socket s = Inr (item, s1) \<and>
       update_batch_fill e (admit_request e (fst item) (snd item) s1) = Inr s')"
  using assms
  by (subst (asm) update_batch_fill.simps)
    (auto split: if_splits sum.splits error.splits prod.splits)

text \<open>Storing keys one after the other in an ordered dictionary.\<close>

lemma fold_store_fresh:
  "distinct (ks @ xs) \<Longrightarrow>
   fold (\<lambda>rid ks. if rid \<in> set ks then ks else ks @ [rid]) xs ks = ks @ xs"
  by (induction xs arbitrary: ks) auto

lemma update_batch_fill_order:
  "update_batch_fill e s = Inr s' \<Longrightarrow>
   \<exists>k news.
     k \<le> length (preempted_decode s) \<and>
     preempted_decode s' = drop k (preempted_decode s) \<and>
     decode_pull_socket s = map (\<lambda>(r, c). Delivered r c) news @ decode_pull_socket s' \<and>
     (news \<noteq> [] \<longrightarrow> preempted_decode s' = []) \<and>
     map fst (active_batch s') =
       fold (\<lambda>rid ks. if rid \<in> set ks then ks else ks @ [rid])
         (map fst (take k (preempted_decode s)) @ map fst news) (map fst (active_batch s))"
proof (induction e s rule: update_batch_fill.induct)
  case (1 e s)
  let ?store = "\<lambda>rid ks. if rid \<in> set ks then ks else ks @ [rid]"
  from update_batch_fill_cases [OF "1.prems"] show ?case
  proof (elim disjE exE conjE)
    assume "s' = s"
    then show ?thesis
      by (intro exI [of _ 0] exI [of _ "[]"]) simp
  next
    fix item s1
    assume ne: "available_cache_indices s \<noteq> {}"
      and p: "pull_from_decode_socket s = Inr (item, s1)"
      and f: "update_batch_fill e (admit_request e (fst item) (snd item) s1) = Inr s'"
    let ?s2 = "admit_request e (fst item) (snd item) s1"
    from "1.IH" [OF ne p, of item s1 "fst item" "snd item"] f
    obtain k news where
      k: "k \<le> length (preempted_decode ?s2)" and
      pre: "preempted_decode s' = drop k (preempted_decode ?s2)" and
      sock: "decode_pull_socket ?s2 = map (\<lambda>(r, c). Delivered r c) news @ decode_pull_socket s'" and
      pri: "news \<noteq> [] \<longrightarrow> preempted_decode s' = []" and
      keys: "map fst (active_batch s') =
         fold ?store (map fst (take k (preempted_decode ?s2)) @ map fst news)
           (map fst (active_batch ?s2))"
      by auto
    have keys2: "map fst (active_batch ?s2) = ?store (fst item) (map fst (active_batch s1))"
      by (simp add: admit_request_keys)
    from pull_cases [OF p] show ?thesis
    proof (elim disjE exE conjE)
      fix ps
      assume a: "preempted_decode s = item # ps" "s1 = s\<lparr>preempted_decode := ps\<rparr>"
      show ?thesis
        using a k pre sock pri keys keys2
        by (intro exI [of _ "Suc k"] exI [of _ news]) simp
    next
      fix rest
      assume a: "preempted_decode s = []"
        "decode_pull_socket s = Delivered (fst item) (snd item) # rest"
        "s1 = s\<lparr>decode_pull_socket := rest\<rparr>"
      show ?thesis
        using a k pre sock pri keys keys2
        by (intro exI [of _ 0] exI [of _ "item # news"]) (simp add: case_prod_beta)
    qed
  qed
qed

text \<open>
  Claim C7: a pull answers with the head of the preempted queue whenever that queue is not
  empty, and touches the decode socket only when it is empty. Over the whole fill loop:
  some prefix of the preempted queue and some prefix \<open>news\<close> of the decode socket are
  admitted, the socket is touched only if the preempted queue is drained, and (request ids
  being distinct) the preempted requests enter the active batch before every new one.
\<close>

theorem preempted_priority:
  "(pull_from_decode_socket s = Inr (item, s1) \<longrightarrow>
      (preempted_decode s \<noteq> [] \<longrightarrow>
         item = hd (preempted_decode s) \<and> preempted_decode s1 = tl (preempted_decode s) \<and>
         decode_pull_socket s1 = decode_pull_socket s) \<and>
      (decode_pull_socket s1 \<noteq> decode_pull_socket s \<longrightarrow> preempted_decode s = [])) \<and>
   (update_batch_fill e s = Inr s' \<longrightarrow>
      (\<exists>k news.
         preempted_decode s' = drop k (preempted_decode s) \<and>
         decode_pull_socket s = map (\<lambda>(r, c). Delivered r c) news @ decode_pull_socket s' \<and>
         (news \<noteq> [] \<longrightarrow> preempted_decode s' = []) \<and>
         (distinct (map fst (active_batch s) @ map fst (take k (preempted_decode s)) @ map fst news)
            \<longrightarrow> map fst (active_batch s') =
                 map fst (active_batch s) @ map fst (take k (preempted_decode s)) @ map fst news)))"
proof (rule conjI)
  show "pull_from_decode_socket s = Inr (item, s1) \<longrightarrow>
      (preempted_decode s \<noteq> [] \<longrightarrow>
         item = hd (preempted_decode s) \<and> preempted_decode s1 = tl (preempted_decode s) \<and>
         decode_pull_socket s1 = decode_pull_socket s) \<and>
      (decode_pull_socket s1 \<noteq> decode_pull_socket s \<longrightarrow> preempted_decode s = [])"
  proof (rule impI)
    assume p: "pull_from_decode_socket s = Inr (item, s1)"
    from pull_cases [OF p] show "(preempted_decode s \<noteq> [] \<longrightarrow>
         item = hd (preempted_decode s) \<and> preempted_decode s1 = tl (preempted_decode s) \<and>
         decode_pull_socket s1 = decode_pull_socket s) \<and>
      (decode_pull_socket s1 \<noteq> decode_pull_socket s \<longrightarrow> preempted_decode s = [])"
      by auto
  qed
next
  show "update_batch_fill e s = Inr s' \<longrightarrow>
      (\<exists>k news.
         preempted_decode s' = drop k (preempted_decode s) \<and>
         decode_pull_socket s = map (\<lambda>(r, c). Delivered r c) news @ decode_pull_socket s' \<and>
         (news \<noteq> [] \<longrightarrow> preempted_decode s' = []) \<and>
         (distinct (map fst (active_batch s) @ map fst (take k (preempted_decode s)) @ map fst news)
            \<longrightarrow> map fst (active_batch s') =
                 map fst (active_batch s) @ map fst (take k (preempted_decode s)) @ map fst news))"
  proof (rule impI)
    assume "update_batch_fill e s = Inr s'"
    from update_batch_fill_order [OF this] obtain k news where
      pre: "preempted_decode s' = drop k (preempted_decode s)" and
      sock: "decode_pull_socket s = map (\<lambda>(r, c). Delivered r c) news @ decode_pull_socket s'" and
      pri: "news \<noteq> [] \<longrightarrow> preempted_decode s' = []" and
      keys: "map fst (active_batch s') =
        fold (\<lambda>rid ks. if rid \<in> set ks then ks else ks @ [rid])
          (map fst (take k (preempted_decode s)) @ map fst news) (map fst (active_batch s))"
      by blast
    have "map fst (active_batch s') =
        map fst (active_batch s) @ map fst (take k (preempted_decode s)) @ map fst news"
      if "distinct (map fst (active_batch s) @ map fst (take k (preempted_decode s)) @ map fst news)"
      using keys fold_store_fresh [OF that] by simp
    with pre sock pri show "\<exists>k news.
         preempted_decode s' = drop k (preempted_decode s) \<and>
         decode_pull_socket s = map (\<lambda>(r, c). Delivered r c) news @ decode_pull_socket s' \<and>
         (news \<noteq> [] \<longrightarrow> preempted_decode s' = []) \<and>
         (distinct (map fst (active_batch s) @ map fst (take k (preempted_decode s)) @ map fst news)
            \<longrightarrow> map fst (active_batch s') =
                 map fst (active_batch s) @ map fst (take k (preempted_decode s)) @ map fst news)"
      by blast
  qed
qed

theorem preempted_priority_witness:
  "pull_from_decode_socket waiting
     = Inr ((''R2'', ctx None None 0), waiting\<lparr>preempted_decode := []\<rparr>)
   \<and> preempted_decode waiting \<noteq> []
   \<and> (''R2'', ctx None None 0) = hd (preempted_decode waiting)
   \<and> update_batch_fill example_env waiting = Inr admitted
   \<and> map fst (active_batch admitted) = [''R2'', ''R3'']"
  using preempted_priority
    [of waiting "(''R2'', ctx None None 0)" "waiting\<lparr>preempted_decode := []\<rparr>"
        example_env admitted]
  by (simp add: update_batch_fill.simps waiting_def admitted_def pull_from_decode_socket_def
      admit_request_def is_assigned_to_cache_def assign_to_cache_def ctx_def example_env_def
      Let_def)

section \<open>Reservation and preemption: results\<close>

lemma reserve_success:
  assumes "map_of (active_batch s) rid = Some c"
    and "prefetch e (calls s) c (candidate_num_steps e c)"
  shows "update_batch_reserve e s (rid # cs) =
    update_batch_reserve e
      (s\<lparr>calls := calls s @ [Prefetch c (candidate_num_steps e c) True]\<rparr>) cs"
  using assms by (subst update_batch_reserve.simps) (simp add: Let_def)

lemma reserve_fail_last:
  assumes "map_of (active_batch s) rid = Some c"
    and "\<not> prefetch e (calls s) c (candidate_num_steps e c)"
    and "cache_seq_id c = Some i"
  shows "update_batch_reserve e s [rid] =
    Inr (s\<lparr>calls := calls s @ [Prefetch c (candidate_num_steps e c) False, Release c],
           available_cache_indices := insert i (available_cache_indices s),
           preempted_decode := preempted_decode s @ [(rid, reset e c)],
           active_batch := AList.delete rid (active_batch s)\<rparr>)"
  using assms
  by (subst update_batch_reserve.simps)
    (simp add: Let_def return_to_decode_queue_def update_batch_reserve.simps(1))

lemma reserve_fail_more:
  assumes "map_of (active_batch s) rid = Some c"
    and "\<not> prefetch e (calls s) c (candidate_num_steps e c)"
    and "cs \<noteq> []"
    and "map_of (active_batch s) (last cs) = Some nc"
    and "cache_seq_id nc = Some i"
  shows "update_batch_reserve e s (rid # cs) =
    update_batch_reserve e
      (s\<lparr>calls := calls s @ [Prefetch c (candidate_num_steps e c) False, Release nc],
         available_cache_indices := insert i (available_cache_indices s),
         preempted_decode := preempted_decode s @ [(last cs, reset e nc)],
         active_batch := AList.delete (last cs) (active_batch s)\<rparr>)
      (rid # butlast cs)"
  using assms
  apply (subst update_batch_reserve.simps)
  apply (simp add: Let_def return_to_decode_queue_def)
  apply (rule arg_cong2 [where f = "update_batch_reserve e"]; simp)
  done

lemma delete_last_key:
  assumes "distinct (map fst al)" "al \<noteq> []"
  shows "AList.delete (fst (last al)) al = butlast al"
proof -
  from assms(2) obtain xs x where al: "al = xs @ [x]" by (metis rev_exhaust)
  with assms(1) have "fst x \<notin> fst ` set xs" by auto
  then have "AList.delete (fst x) xs = xs"
    by (induction xs) (auto simp: AList.delete_eq)
  then show ?thesis using al by (cases x) (simp add: AList.delete_eq)
qed

lemma map_of_last_key:
  assumes "distinct (map fst al)" "al \<noteq> []"
  shows "map_of al (fst (last al)) = Some (snd (last al))"
  using assms by (metis last_in_set map_of_is_SomeI prod.collapse)


lemma keys_last:
  assumes "map fst al = pre @ cs" "cs \<noteq> []"
  shows "al \<noteq> []" "fst (last al) = last cs"
proof -
  show ne: "al \<noteq> []" using assms by auto
  have "last (map fst al) = last cs" using assms by simp
  then show "fst (last al) = last cs" using ne by (simp add: last_map)
qed

lemma reserve_suffix:
  assumes "distinct (map fst (active_batch s))"
    and "map fst (active_batch s) = pre @ cs"
    and "\<forall>item \<in> set (active_batch s). cache_seq_id (snd item) \<noteq> None"
  shows "\<exists>m new.
    update_batch_reserve e s cs = Inr ((preempt_from e m s)\<lparr>calls := calls s @ new\<rparr>) \<and>
    length pre \<le> m \<and> m \<le> length (active_batch s) \<and>
    filter is_Release new = map (\<lambda>item. Release (snd item)) (rev (drop m (active_batch s))) \<and>
    length (filter is_Prefetch new) = length cs \<and>
    filter is_ExternalClaim new = []"
  using assms
proof (induction "length cs" arbitrary: s cs pre rule: less_induct)
  case less
  note d = less.prems(1) and k = less.prems(2) and a = less.prems(3)
  let ?al = "active_batch s"
  have len: "length ?al = length pre + length cs"
    using k by (metis length_append length_map)
  show ?case
  proof (cases cs)
    case Nil
    have "preempt_from e (length ?al) s\<lparr>calls := calls s @ []\<rparr> = s"
      by (rule scheduler.equality) (simp_all add: preempt_from_def)
    then show ?thesis using Nil len
      by (intro exI [of _ "length ?al"] exI [of _ "[]"])
        (simp add: update_batch_reserve.simps)
  next
    case (Cons rid rest)
    have "rid \<in> fst ` set ?al" using k Cons by (metis in_set_conv_decomp list.set_map)
    then obtain c where c: "map_of ?al rid = Some c"
      by (metis map_of_eq_None_iff not_Some_eq)
    let ?n = "candidate_num_steps e c"
    show ?thesis
    proof (cases "prefetch e (calls s) c ?n")
      case True
      let ?s1 = "s\<lparr>calls := calls s @ [Prefetch c ?n True]\<rparr>"
      have step: "update_batch_reserve e s cs = update_batch_reserve e ?s1 rest"
        using reserve_success [OF c True] Cons by simp
      have "length rest < length cs" using Cons by simp
      from less.hyps [OF this, of ?s1 "pre @ [rid]"] d k a Cons
      obtain m new where
        r: "update_batch_reserve e ?s1 rest
              = Inr ((preempt_from e m ?s1)\<lparr>calls := calls ?s1 @ new\<rparr>)" and
        b: "length (pre @ [rid]) \<le> m" "m \<le> length (active_batch ?s1)" and
        rel: "filter is_Release new
              = map (\<lambda>item. Release (snd item)) (rev (drop m (active_batch ?s1)))" and
        pf: "length (filter is_Prefetch new) = length rest" and
        ec: "filter is_ExternalClaim new = []"
        by auto
      have eq: "(preempt_from e m ?s1)\<lparr>calls := calls ?s1 @ new\<rparr>
          = (preempt_from e m s)\<lparr>calls := calls s @ (Prefetch c ?n True # new)\<rparr>"
        by (rule scheduler.equality) (simp_all add: preempt_from_def)
      show ?thesis
        using step r b rel pf ec Cons unfolding eq
        by (intro exI [of _ m] exI [of _ "Prefetch c ?n True # new"]) simp
    next
      case False
      have ne: "?al \<noteq> []" and lk: "fst (last ?al) = last cs"
        using keys_last [OF k] Cons by auto
      let ?nc = "snd (last ?al)"
      have mlast: "map_of ?al (last cs) = Some ?nc"
        using map_of_last_key [OF d ne] lk by simp
      have "last ?al \<in> set ?al" using ne by simp
      with a obtain i where i: "cache_seq_id ?nc = Some i" by auto
      have dl: "AList.delete (last cs) ?al = butlast ?al"
        using delete_last_key [OF d ne] lk by simp
      have dropl: "drop (length ?al - 1) ?al = [last ?al]"
        using ne by (metis append_butlast_last_id append_eq_conv_conj length_butlast)
      show ?thesis
      proof (cases "rest = []")
        case True
        then have cs1: "cs = [rid]" using Cons by simp
        then have lc: "last cs = rid" by simp
        with c mlast have cn: "c = ?nc" by simp
        let ?m = "length ?al - 1"
        let ?new = "[Prefetch c ?n False, Release c]"
        have "update_batch_reserve e s cs =
          Inr (s\<lparr>calls := calls s @ [Prefetch c ?n False, Release c],
                 available_cache_indices := insert i (available_cache_indices s),
                 preempted_decode := preempted_decode s @ [(rid, reset e c)],
                 active_batch := AList.delete rid (active_batch s)\<rparr>)"
          using reserve_fail_last [OF c False] i cn cs1 by simp
        also have "s\<lparr>calls := calls s @ [Prefetch c ?n False, Release c],
                 available_cache_indices := insert i (available_cache_indices s),
                 preempted_decode := preempted_decode s @ [(rid, reset e c)],
                 active_batch := AList.delete rid (active_batch s)\<rparr>
            = (preempt_from e ?m s)\<lparr>calls := calls s @ ?new\<rparr>"
          using dl lc dropl i cn lk
          by (intro scheduler.equality)
            (simp_all add: preempt_from_def slot_of_def requeued_def butlast_conv_take)
        finally have r: "update_batch_reserve e s cs
            = Inr ((preempt_from e ?m s)\<lparr>calls := calls s @ ?new\<rparr>)" .
        show ?thesis
          using r len cs1 dropl cn
          by (intro exI [of _ ?m] exI [of _ ?new]) simp
      next
        case F2: False
        let ?s2 = "s\<lparr>calls := calls s @ [Prefetch c ?n False, Release ?nc],
             available_cache_indices := insert i (available_cache_indices s),
             preempted_decode := preempted_decode s @ [(last rest, reset e ?nc)],
             active_batch := AList.delete (last rest) (active_batch s)\<rparr>"
        have lr: "last cs = last rest" using Cons F2 by simp
        have mlast': "map_of ?al (last rest) = Some ?nc" using mlast lr by simp
        have "update_batch_reserve e s (rid # rest)
            = update_batch_reserve e ?s2 (rid # butlast rest)"
          by (rule reserve_fail_more [OF c False F2 mlast' i])
        then have step: "update_batch_reserve e s cs
            = update_batch_reserve e ?s2 (rid # butlast rest)"
          unfolding Cons .
        have al2: "active_batch ?s2 = butlast ?al" using dl lr by simp
        have lk': "fst (last ?al) = last rest" using lk lr by simp
        have d2: "distinct (map fst (active_batch ?s2))"
          using d al2 by (simp add: map_butlast distinct_butlast)
        have k2: "map fst (active_batch ?s2) = pre @ (rid # butlast rest)"
          using k Cons F2 al2 by (simp add: map_butlast butlast_append)
        have a2: "\<forall>item \<in> set (active_batch ?s2). cache_seq_id (snd item) \<noteq> None"
          using a al2 by (auto dest: in_set_butlastD)
        have "length (rid # butlast rest) < length cs" using Cons F2 by simp
        from less.hyps [OF this d2 k2 a2]
        obtain m new where
          r: "update_batch_reserve e ?s2 (rid # butlast rest)
                = Inr ((preempt_from e m ?s2)\<lparr>calls := calls ?s2 @ new\<rparr>)" and
          b: "length pre \<le> m" "m \<le> length (active_batch ?s2)" and
          rel: "filter is_Release new
                = map (\<lambda>item. Release (snd item)) (rev (drop m (active_batch ?s2)))" and
          pf: "length (filter is_Prefetch new) = length (rid # butlast rest)" and
          ec: "filter is_ExternalClaim new = []"
          by auto
        have mb: "m \<le> length ?al - 1" using b al2 by simp
        have tk: "take m (butlast ?al) = take m ?al"
          using mb by (simp add: butlast_conv_take min_def)
        have dr: "drop m ?al = drop m (butlast ?al) @ [last ?al]"
          using mb ne by (metis append_butlast_last_id drop_append length_butlast
              diff_is_0_eq drop_0)
        let ?new = "[Prefetch c ?n False, Release ?nc] @ new"
        have eq: "(preempt_from e m ?s2)\<lparr>calls := calls ?s2 @ new\<rparr>
            = (preempt_from e m s)\<lparr>calls := calls s @ ?new\<rparr>"
          using al2 tk dr i lk'
          by (intro scheduler.equality)
            (simp_all add: preempt_from_def slot_of_def requeued_def)
        show ?thesis
          using step r b rel pf ec Cons F2 al2 dr unfolding eq
          by (intro exI [of _ m] exI [of _ ?new]) simp
      qed
    qed
  qed
qed

lemma reserve_Cons_cases:
  assumes "update_batch_reserve e s (rid # cs) = Inr s'"
  obtains
    (success) c where "map_of (active_batch s) rid = Some c"
      "prefetch e (calls s) c (candidate_num_steps e c)"
      "update_batch_reserve e
         (s\<lparr>calls := calls s @ [Prefetch c (candidate_num_steps e c) True]\<rparr>) cs = Inr s'"
  | (fail_last) c i where "map_of (active_batch s) rid = Some c"
      "\<not> prefetch e (calls s) c (candidate_num_steps e c)" "cs = []"
      "cache_seq_id c = Some i"
  | (fail_more) c nc i where "map_of (active_batch s) rid = Some c"
      "\<not> prefetch e (calls s) c (candidate_num_steps e c)" "cs \<noteq> []"
      "map_of (active_batch s) (last cs) = Some nc" "cache_seq_id nc = Some i"
proof -
  from assms obtain c where c: "map_of (active_batch s) rid = Some c"
    by (subst (asm) update_batch_reserve.simps) (auto split: option.splits)
  show ?thesis
  proof (cases "prefetch e (calls s) c (candidate_num_steps e c)")
    case True
    with reserve_success [OF c True, of cs] assms c show ?thesis
      by (intro success [of c]) simp_all
  next
    case False
    show ?thesis
    proof (cases "cs = []")
      case True
      with assms c False obtain i where "cache_seq_id c = Some i"
        by (subst (asm) update_batch_reserve.simps)
          (auto simp: Let_def return_to_decode_queue_def split: option.splits)
      with c False True show ?thesis by (intro fail_last [of c i])
    next
      case F2: False
      with assms c False obtain nc where nc: "map_of (active_batch s) (last cs) = Some nc"
        by (subst (asm) update_batch_reserve.simps)
          (auto simp: Let_def split: option.splits)
      with assms c False F2 obtain i where "cache_seq_id nc = Some i"
        by (subst (asm) update_batch_reserve.simps)
          (auto simp: Let_def return_to_decode_queue_def split: option.splits)
      with c False F2 nc show ?thesis by (intro fail_more [of c nc i])
    qed
  qed
qed

lemma reserve_calls_mono:
  "update_batch_reserve e s cs = Inr s' \<Longrightarrow> \<exists>new. calls s' = calls s @ new"
proof (induction "length cs" arbitrary: s cs rule: less_induct)
  case less
  show ?case
  proof (cases cs)
    case Nil
    with less.prems show ?thesis by (simp add: update_batch_reserve.simps)
  next
    case (Cons rid rest)
    from less.prems [unfolded Cons] show ?thesis
    proof (cases rule: reserve_Cons_cases)
      case (success c)
      have "length rest < length cs" using Cons by simp
      from less.hyps [OF this success(3)] show ?thesis by auto
    next
      case (fail_last c i)
      from reserve_fail_last [OF fail_last(1,2,4)] less.prems Cons fail_last(3)
      show ?thesis by auto
    next
      case (fail_more c nc i)
      have l: "length (rid # butlast rest) < length cs" using Cons fail_more(3) by simp
      from reserve_fail_more [OF fail_more] less.prems Cons
      have "update_batch_reserve e
        (s\<lparr>calls := calls s @ [Prefetch c (candidate_num_steps e c) False, Release nc],
           available_cache_indices := insert i (available_cache_indices s),
           preempted_decode := preempted_decode s @ [(last rest, reset e nc)],
           active_batch := AList.delete (last rest) (active_batch s)\<rparr>)
        (rid # butlast rest) = Inr s'" by simp
      from less.hyps [OF l this] show ?thesis by auto
    qed
  qed
qed

lemma reserve_failure_recorded:
  assumes "update_batch_reserve e s (rid # cs) = Inr s'"
    and "map_of (active_batch s) rid = Some c"
    and "\<not> prefetch e (calls s) c (candidate_num_steps e c)"
  shows "\<exists>new. calls s' = calls s @ Prefetch c (candidate_num_steps e c) False # new"
  using assms(1)
proof (cases rule: reserve_Cons_cases)
  case (success c')
  with assms show ?thesis by simp
next
  case (fail_last c' i)
  with reserve_fail_last [OF fail_last(1,2,4)] assms show ?thesis by auto
next
  case (fail_more c' nc i)
  from reserve_fail_more [OF fail_more] assms(1)
  have "update_batch_reserve e
        (s\<lparr>calls := calls s @ [Prefetch c' (candidate_num_steps e c') False, Release nc],
           available_cache_indices := insert i (available_cache_indices s),
           preempted_decode := preempted_decode s @ [(last cs, reset e nc)],
           active_batch := AList.delete (last cs) (active_batch s)\<rparr>)
        (rid # butlast cs) = Inr s'" by simp
  from reserve_calls_mono [OF this] fail_more(1) assms(2) show ?thesis by auto
qed

text \<open>The prefetch calls of a phase without a failure: one per candidate.\<close>

lemma reserve_no_failure:
  assumes "update_batch_reserve e s cs = Inr s'"
    and "calls s' = calls s @ new"
    and "\<forall>c n. Prefetch c n False \<notin> set new"
  shows "s' = s\<lparr>calls := calls s @ new\<rparr> \<and> length new = length cs \<and> list_all is_Prefetch new"
  using assms
proof (induction cs arbitrary: s new)
  case Nil
  then show ?case by (simp add: update_batch_reserve.simps)
next
  case (Cons rid cs)
  from Cons.prems(1) obtain c where c: "map_of (active_batch s) rid = Some c"
    by (cases rule: reserve_Cons_cases) auto
  let ?n = "candidate_num_steps e c"
  show ?case
  proof (cases "prefetch e (calls s) c ?n")
    case False
    from reserve_failure_recorded [OF Cons.prems(1) c False] obtain new2 where
      "calls s' = calls s @ Prefetch c ?n False # new2" by blast
    with Cons.prems(2) have "new = Prefetch c ?n False # new2" by simp
    then have "Prefetch c ?n False \<in> set new" by simp
    with Cons.prems(3) show ?thesis by blast
  next
    case True
    let ?s1 = "s\<lparr>calls := calls s @ [Prefetch c ?n True]\<rparr>"
    have r: "update_batch_reserve e ?s1 cs = Inr s'"
      using reserve_success [OF c True, of cs] Cons.prems(1) by simp
    from reserve_calls_mono [OF r] obtain new1 where n1: "calls s' = calls ?s1 @ new1" by blast
    with Cons.prems(2) have new: "new = Prefetch c ?n True # new1" by simp
    with Cons.prems(3) have "\<forall>c n. Prefetch c n False \<notin> set new1" by simp
    from Cons.IH [OF r n1 this] new show ?thesis by simp
  qed
qed

lemma reserve_all_succeed:
  assumes "set cs \<subseteq> fst ` set (active_batch s)"
    and "\<forall>l c n. prefetch e l c n"
  shows "\<exists>new. update_batch_reserve e s cs = Inr (s\<lparr>calls := calls s @ new\<rparr>) \<and>
           length new = length cs \<and> list_all is_Prefetch new"
  using assms(1)
proof (induction cs arbitrary: s)
  case Nil
  have "s\<lparr>calls := calls s @ []\<rparr> = s" by simp
  then show ?case by (intro exI [of _ "[]"]) (simp add: update_batch_reserve.simps)
next
  case (Cons rid cs)
  then have "rid \<in> fst ` set (active_batch s)" by simp
  then obtain c where c: "map_of (active_batch s) rid = Some c"
    by (metis map_of_eq_None_iff not_Some_eq)
  let ?n = "candidate_num_steps e c"
  let ?s1 = "s\<lparr>calls := calls s @ [Prefetch c ?n True]\<rparr>"
  have ok: "prefetch e (calls s) c ?n" using assms(2) by simp
  have "set cs \<subseteq> fst ` set (active_batch ?s1)" using Cons.prems by simp
  from Cons.IH [OF this] obtain new where
    r: "update_batch_reserve e ?s1 cs = Inr (?s1\<lparr>calls := calls ?s1 @ new\<rparr>)" and
    l: "length new = length cs" "list_all is_Prefetch new" by blast
  have "?s1\<lparr>calls := calls ?s1 @ new\<rparr> = s\<lparr>calls := calls s @ (Prefetch c ?n True # new)\<rparr>"
    by simp
  with r reserve_success [OF c ok, of cs] l show ?case
    by (intro exI [of _ "Prefetch c ?n True # new"]) simp
qed

text \<open>Unfolding the examples.\<close>

lemmas example_defs = example_env_def tight_env_def pressure_env_def roomy_env_def ctx_def
  candidate_num_steps_def return_to_decode_queue_def Let_def


text \<open>
  Claim C1: when the prefetch for the front candidate \<open>rid\<close> fails and other candidates
  \<open>cs\<close> remain, the request returned to the decode queue is \<open>last cs\<close>, the most
  recently admitted one (slot back in the free set, release called, context reset and
  queued, entry deleted from the active batch), and the loop goes on with \<open>rid\<close> at the
  front of the remaining candidates; when no other candidate remains, \<open>rid\<close> itself is
  returned in the same way and the phase ends. Over the whole phase the requests preempted
  are those from some position \<open>m\<close> of the active batch on, newest first: the \<open>m\<close>
  oldest members stay.
\<close>

theorem preemption_victim:
  "(map_of (active_batch s) rid = Some c \<and>
    \<not> prefetch e (calls s) c (candidate_num_steps e c) \<and>
    cs \<noteq> [] \<and> map_of (active_batch s) (last cs) = Some nc \<and> cache_seq_id nc = Some i
    \<longrightarrow>
      update_batch_reserve e s (rid # cs) =
        update_batch_reserve e
          (s\<lparr>calls := calls s @ [Prefetch c (candidate_num_steps e c) False, Release nc],
             available_cache_indices := insert i (available_cache_indices s),
             preempted_decode := preempted_decode s @ [(last cs, reset e nc)],
             active_batch := AList.delete (last cs) (active_batch s)\<rparr>)
          (rid # butlast cs)) \<and>
   (map_of (active_batch s) rid = Some c \<and>
    \<not> prefetch e (calls s) c (candidate_num_steps e c) \<and> cache_seq_id c = Some j
    \<longrightarrow>
      update_batch_reserve e s [rid] =
        Inr (s\<lparr>calls := calls s @ [Prefetch c (candidate_num_steps e c) False, Release c],
               available_cache_indices := insert j (available_cache_indices s),
               preempted_decode := preempted_decode s @ [(rid, reset e c)],
               active_batch := AList.delete rid (active_batch s)\<rparr>)) \<and>
   (distinct (map fst (active_batch s)) \<and>
    (\<forall>item \<in> set (active_batch s). cache_seq_id (snd item) \<noteq> None)
    \<longrightarrow>
      (\<exists>m new.
         update_batch_reserve e s (map fst (active_batch s)) =
           Inr ((preempt_from e m s)\<lparr>calls := calls s @ new\<rparr>) \<and>
         m \<le> length (active_batch s) \<and>
         filter is_Release new =
           map (\<lambda>item. Release (snd item)) (rev (drop m (active_batch s)))))"
proof (intro conjI)
  show "map_of (active_batch s) rid = Some c \<and>
    \<not> prefetch e (calls s) c (candidate_num_steps e c) \<and>
    cs \<noteq> [] \<and> map_of (active_batch s) (last cs) = Some nc \<and> cache_seq_id nc = Some i
    \<longrightarrow>
      update_batch_reserve e s (rid # cs) =
        update_batch_reserve e
          (s\<lparr>calls := calls s @ [Prefetch c (candidate_num_steps e c) False, Release nc],
             available_cache_indices := insert i (available_cache_indices s),
             preempted_decode := preempted_decode s @ [(last cs, reset e nc)],
             active_batch := AList.delete (last cs) (active_batch s)\<rparr>)
          (rid # butlast cs)"
    using reserve_fail_more [of s rid c e cs nc i] by blast
next
  show "map_of (active_batch s) rid = Some c \<and>
    \<not> prefetch e (calls s) c (candidate_num_steps e c) \<and> cache_seq_id c = Some j
    \<longrightarrow>
      update_batch_reserve e s [rid] =
        Inr (s\<lparr>calls := calls s @ [Prefetch c (candidate_num_steps e c) False, Release c],
               available_cache_indices := insert j (available_cache_indices s),
               preempted_decode := preempted_decode s @ [(rid, reset e c)],
               active_batch := AList.delete rid (active_batch s)\<rparr>)"
    using reserve_fail_last [of s rid c e j] by blast
next
  show "distinct (map fst (active_batch s)) \<and>
    (\<forall>item \<in> set (active_batch s). cache_seq_id (snd item) \<noteq> None)
    \<longrightarrow>
      (\<exists>m new.
         update_batch_reserve e s (map fst (active_batch s)) =
           Inr ((preempt_from e m s)\<lparr>calls := calls s @ new\<rparr>) \<and>
         m \<le> length (active_batch s) \<and>
         filter is_Release new =
           map (\<lambda>item. Release (snd item)) (rev (drop m (active_batch s))))"
  proof (rule impI)
    assume a: "distinct (map fst (active_batch s)) \<and>
      (\<forall>item \<in> set (active_batch s). cache_seq_id (snd item) \<noteq> None)"
    have k: "map fst (active_batch s) = [] @ map fst (active_batch s)" by simp
    from reserve_suffix [OF conjunct1 [OF a] k conjunct2 [OF a], of e]
    show "\<exists>m new.
         update_batch_reserve e s (map fst (active_batch s)) =
           Inr ((preempt_from e m s)\<lparr>calls := calls s @ new\<rparr>) \<and>
         m \<le> length (active_batch s) \<and>
         filter is_Release new =
           map (\<lambda>item. Release (snd item)) (rev (drop m (active_batch s)))"
      by blast
  qed
qed

theorem preemption_victim_witness:
  "map_of (active_batch crowded) ''R1'' = Some (ctx (Some 0) None 3)
   \<and> \<not> prefetch pressure_env (calls crowded) (ctx (Some 0) None 3)
         (candidate_num_steps pressure_env (ctx (Some 0) None 3))
   \<and> [''R2''] \<noteq> []
   \<and> map_of (active_batch crowded) (last [''R2'']) = Some (ctx (Some 1) None 4)
   \<and> cache_seq_id (ctx (Some 1) None 4) = Some 1
   \<and> update_batch_reserve pressure_env crowded [''R1'', ''R2''] = Inr crowded_relieved
   \<and> map_of (active_batch lonely) ''R1'' = Some (ctx (Some 0) None 3)
   \<and> \<not> prefetch tight_env (calls lonely) (ctx (Some 0) None 3)
         (candidate_num_steps tight_env (ctx (Some 0) None 3))
   \<and> cache_seq_id (ctx (Some 0) None 3) = Some 0
   \<and> update_batch_reserve tight_env lonely [''R1''] = Inr lonely_preempted
   \<and> distinct (map fst (active_batch crowded))
   \<and> list_all (\<lambda>item. cache_seq_id (snd item) \<noteq> None) (active_batch crowded)
   \<and> update_batch_reserve pressure_env crowded (map fst (active_batch crowded))
        = Inr ((preempt_from pressure_env 1 crowded)\<lparr>calls := calls crowded_relieved\<rparr>)"
  using preemption_victim
    [of crowded "''R1''" "ctx (Some 0) None 3" pressure_env "[''R2'']" "ctx (Some 1) None 4" 1 0]
    preemption_victim
    [of lonely "''R1''" "ctx (Some 0) None 3" tight_env "[]" "ctx (Some 0) None 3" 0 0]
  by (simp add: update_batch_reserve.simps crowded_def crowded_relieved_def lonely_def
      lonely_preempted_def preempt_from_def slot_of_def requeued_def example_defs)


text \<open>
  The loop itself does what the claim says: the reservation phase returns; it runs one
  iteration (one prefetch) per member of the working list, so every iteration shrinks the
  list by one, and it evicts at most as many requests as the active batch holds when the
  phase starts; that is at most \<open>max_batch_size_tg\<close> whenever the batch is within that
  capacity.
\<close>

lemma reservation_terminates:
  assumes "distinct (map fst (active_batch s))"
    and "\<forall>item \<in> set (active_batch s). cache_seq_id (snd item) \<noteq> None"
  shows "\<exists>s' new.
    update_batch_reserve e s (map fst (active_batch s)) = Inr s' \<and>
    calls s' = calls s @ new \<and>
    length (filter is_Prefetch new) = length (active_batch s) \<and>
    length (filter is_Release new) \<le> length (active_batch s) \<and>
    (length (active_batch s) \<le> nat (max_batch_size_tg (scheduler_config e)) \<longrightarrow>
       length (filter is_Release new) \<le> nat (max_batch_size_tg (scheduler_config e)))"
proof -
  have k: "map fst (active_batch s) = [] @ map fst (active_batch s)" by simp
  from reserve_suffix [OF assms(1) k assms(2), of e] obtain m new where
    r: "update_batch_reserve e s (map fst (active_batch s)) =
          Inr ((preempt_from e m s)\<lparr>calls := calls s @ new\<rparr>)" and
    rel: "filter is_Release new = map (\<lambda>item. Release (snd item)) (rev (drop m (active_batch s)))" and
    pf: "length (filter is_Prefetch new) = length (map fst (active_batch s))"
    by blast
  have "length (filter is_Release new) \<le> length (active_batch s)"
    unfolding rel by simp
  with r pf show ?thesis
    by (intro exI [of _ "(preempt_from e m s)\<lparr>calls := calls s @ new\<rparr>"] exI [of _ new]) simp
qed

lemma reservation_terminates_example:
  "distinct (map fst (active_batch crowded))
   \<and> list_all (\<lambda>item. cache_seq_id (snd item) \<noteq> None) (active_batch crowded)
   \<and> update_batch_reserve pressure_env crowded (map fst (active_batch crowded))
        = Inr crowded_relieved
   \<and> calls crowded_relieved = calls crowded @ calls crowded_relieved
   \<and> length (filter is_Prefetch (calls crowded_relieved)) = length (active_batch crowded)
   \<and> length (filter is_Release (calls crowded_relieved)) = 1"
  using reservation_terminates [of crowded pressure_env]
  by (simp add: update_batch_reserve.simps crowded_def crowded_relieved_def example_defs)

text \<open>
  Claim C10: if no prefetch issued during the reservation phase fails, the phase changes
  nothing but the record of calls: the active batch (members and order), the free slots
  and the preempted queue are as before, and the calls issued are prefetches only. With a
  cache manager that always has room the phase returns and this is the case.
\<close>

theorem no_preemption_when_prefetch_succeeds:
  "(update_batch_reserve e s (map fst (active_batch s)) = Inr s' \<and>
    calls s' = calls s @ new \<and> (\<forall>c n. Prefetch c n False \<notin> set new)
    \<longrightarrow>
      active_batch s' = active_batch s \<and>
      available_cache_indices s' = available_cache_indices s \<and>
      preempted_decode s' = preempted_decode s \<and>
      list_all is_Prefetch new \<and> length new = length (active_batch s)) \<and>
   ((\<forall>l c n. prefetch e l c n)
    \<longrightarrow>
      (\<exists>new. update_batch_reserve e s (map fst (active_batch s))
                = Inr (s\<lparr>calls := calls s @ new\<rparr>) \<and>
              list_all is_Prefetch new \<and> length new = length (active_batch s)))"
proof (rule conjI)
  show "update_batch_reserve e s (map fst (active_batch s)) = Inr s' \<and>
    calls s' = calls s @ new \<and> (\<forall>c n. Prefetch c n False \<notin> set new)
    \<longrightarrow>
      active_batch s' = active_batch s \<and>
      available_cache_indices s' = available_cache_indices s \<and>
      preempted_decode s' = preempted_decode s \<and>
      list_all is_Prefetch new \<and> length new = length (active_batch s)"
  proof (rule impI)
    assume a: "update_batch_reserve e s (map fst (active_batch s)) = Inr s' \<and>
      calls s' = calls s @ new \<and> (\<forall>c n. Prefetch c n False \<notin> set new)"
    then have 1: "update_batch_reserve e s (map fst (active_batch s)) = Inr s'"
      and 2: "calls s' = calls s @ new" and 3: "\<forall>c n. Prefetch c n False \<notin> set new"
      by blast+
    from reserve_no_failure [OF 1 2 3]
    have "s' = s\<lparr>calls := calls s @ new\<rparr>" "length new = length (active_batch s)"
      "list_all is_Prefetch new" by simp_all
    then show "active_batch s' = active_batch s \<and>
      available_cache_indices s' = available_cache_indices s \<and>
      preempted_decode s' = preempted_decode s \<and>
      list_all is_Prefetch new \<and> length new = length (active_batch s)" by simp
  qed
next
  show "(\<forall>l c n. prefetch e l c n)
    \<longrightarrow>
      (\<exists>new. update_batch_reserve e s (map fst (active_batch s))
                = Inr (s\<lparr>calls := calls s @ new\<rparr>) \<and>
              list_all is_Prefetch new \<and> length new = length (active_batch s))"
  proof (rule impI)
    assume a: "\<forall>l c n. prefetch e l c n"
    have "set (map fst (active_batch s)) \<subseteq> fst ` set (active_batch s)" by simp
    from reserve_all_succeed [OF this a] show "\<exists>new. update_batch_reserve e s (map fst (active_batch s))
                = Inr (s\<lparr>calls := calls s @ new\<rparr>) \<and>
              list_all is_Prefetch new \<and> length new = length (active_batch s)"
      by auto
  qed
qed

theorem no_preemption_when_prefetch_succeeds_witness:
  "update_batch_reserve roomy_env admitted (map fst (active_batch admitted))
     = Inr (admitted\<lparr>calls := calls admitted @
              [Prefetch (ctx (Some 0) None 0) 10 True, Prefetch (ctx (Some 1) None 0) 10 True]\<rparr>)
   \<and> list_all (\<lambda>ev. ev \<noteq> Prefetch (ctx (Some 0) None 0) 10 False)
        [Prefetch (ctx (Some 0) None 0) 10 True, Prefetch (ctx (Some 1) None 0) 10 True]
   \<and> prefetch roomy_env [] (ctx (Some 0) None 0) 10
   \<and> active_batch (admitted\<lparr>calls := calls admitted @
              [Prefetch (ctx (Some 0) None 0) 10 True, Prefetch (ctx (Some 1) None 0) 10 True]\<rparr>)
       = active_batch admitted"
  using no_preemption_when_prefetch_succeeds
    [of roomy_env admitted
        "admitted\<lparr>calls := calls admitted @
              [Prefetch (ctx (Some 0) None 0) 10 True, Prefetch (ctx (Some 1) None 0) 10 True]\<rparr>"
        "[Prefetch (ctx (Some 0) None 0) 10 True, Prefetch (ctx (Some 1) None 0) 10 True]"]
  by (simp add: update_batch_reserve.simps admitted_def example_defs)

section \<open>Termination reclamation: results\<close>

lemma handle_terminated_loop_ok:
  assumes "distinct (map fst rs)"
    and "\<forall>item \<in> set rs. is_done (snd item) \<longrightarrow>
           (\<exists>c i. map_of (active_batch s) (fst item) = Some c \<and> cache_seq_id c = Some i)"
  shows "handle_terminated_loop rs s = Inr (reclaimed (terminated_ids rs) s)"
  using assms
proof (induction rs arbitrary: s)
  case Nil
  have "reclaimed [] s = s"
    by (rule scheduler.equality) (simp_all add: reclaimed_def)
  then show ?case by (simp add: terminated_ids_def)
next
  case (Cons item rs)
  obtain rid r where item: "item = (rid, r)" by (cases item)
  have d: "distinct (map fst rs)" and notin: "rid \<notin> fst ` set rs"
    using Cons.prems(1) item by auto
  show ?case
  proof (cases "is_done r")
    case False
    have t: "terminated_ids (item # rs) = terminated_ids rs"
      using False item by (simp add: terminated_ids_def)
    have "handle_terminated_loop rs s = Inr (reclaimed (terminated_ids rs) s)"
      using Cons.IH [OF d] Cons.prems(2) by simp
    then show ?thesis using False item t by simp
  next
    case True
    from Cons.prems(2) True item obtain c i where
      c: "map_of (active_batch s) rid = Some c" and i: "cache_seq_id c = Some i"
      by auto
    let ?s1 = "s\<lparr>calls := calls s @ [Release c],
                  available_cache_indices := insert i (available_cache_indices s),
                  active_batch := AList.delete rid (active_batch s)\<rparr>"
    have t: "terminated_ids (item # rs) = rid # terminated_ids rs"
      using True item by (simp add: terminated_ids_def)
    have other: "rid' \<noteq> rid" if "rid' \<in> set (terminated_ids rs)" for rid'
      using that notin by (auto simp: terminated_ids_def)
    have m: "map_of (active_batch ?s1) rid' = map_of (active_batch s) rid'"
      if "rid' \<in> set (terminated_ids rs)" for rid'
      using other [OF that] by (simp add: AList.delete_conv)
    have pre: "\<forall>item \<in> set rs. is_done (snd item) \<longrightarrow>
           (\<exists>c i. map_of (active_batch ?s1) (fst item) = Some c \<and> cache_seq_id c = Some i)"
    proof
      fix it assume it: "it \<in> set rs"
      show "is_done (snd it) \<longrightarrow>
           (\<exists>c i. map_of (active_batch ?s1) (fst it) = Some c \<and> cache_seq_id c = Some i)"
      proof
        assume dn: "is_done (snd it)"
        then have "fst it \<in> set (terminated_ids rs)"
          using it by (auto simp: terminated_ids_def)
        from m [OF this] Cons.prems(2) it dn show
          "\<exists>c i. map_of (active_batch ?s1) (fst it) = Some c \<and> cache_seq_id c = Some i"
          by simp
      qed
    qed
    have step: "handle_terminated_loop (item # rs) s = handle_terminated_loop rs ?s1"
      using True item c i by simp
    have eq: "reclaimed (terminated_ids rs) ?s1 = reclaimed (rid # terminated_ids rs) s"
    proof (rule scheduler.equality)
      show "calls (reclaimed (terminated_ids rs) ?s1) = calls (reclaimed (rid # terminated_ids rs) s)"
        using m c by (simp add: reclaimed_def cong: map_cong)
      show "available_cache_indices (reclaimed (terminated_ids rs) ?s1)
          = available_cache_indices (reclaimed (rid # terminated_ids rs) s)"
        using m c i by (simp add: reclaimed_def cong: map_cong image_cong)
      show "active_batch (reclaimed (terminated_ids rs) ?s1)
          = active_batch (reclaimed (rid # terminated_ids rs) s)"
        by (auto simp: reclaimed_def AList.delete_eq case_prod_beta intro: filter_cong)
    qed (simp_all add: reclaimed_def)
    show ?thesis using step Cons.IH [OF d pre] eq t by simp
  qed
qed


lemma stream_responses_frame:
  assumes "stream_responses_to_frontend responses s = Inr s'"
  shows "active_batch s' = active_batch s \<and>
    available_cache_indices s' = available_cache_indices s \<and>
    preempted_decode s' = preempted_decode s \<and> calls s' = calls s"
  using assms
  by (auto simp: stream_responses_to_frontend_def split: option.splits list.splits sum.splits)

text \<open>
  Claim C6: for the responses of a tick (a dictionary: distinct ids) whose terminated
  requests are members of the active batch holding a slot, reclamation returns; each
  terminated request is released exactly once (the release calls appended are one per
  terminated id, in the order of the responses, and these ids are distinct), it is gone
  from the active batch and its slot id is in the free set; the other members stay; and
  streaming the responses afterwards changes neither the batch nor the free set, so this
  is the state the next admission phase starts from.
\<close>

theorem reclamation:
  assumes "distinct (map fst rs)"
    and "\<forall>item \<in> set rs. is_done (snd item) \<longrightarrow>
           (\<exists>c i. map_of (active_batch s) (fst item) = Some c \<and> cache_seq_id c = Some i)"
  shows "handle_terminated_responses (Some rs) s = Inr (reclaimed (terminated_ids rs) s) \<and>
    distinct (terminated_ids rs) \<and>
    calls (reclaimed (terminated_ids rs) s) =
      calls s @ map (\<lambda>rid. Release (the (map_of (active_batch s) rid))) (terminated_ids rs) \<and>
    (\<forall>item \<in> set rs. is_done (snd item) \<longrightarrow>
       fst item \<notin> fst ` set (active_batch (reclaimed (terminated_ids rs) s)) \<and>
       the (cache_seq_id (the (map_of (active_batch s) (fst item))))
         \<in> available_cache_indices (reclaimed (terminated_ids rs) s)) \<and>
    (\<forall>item \<in> set (active_batch s). fst item \<notin> set (terminated_ids rs) \<longrightarrow>
       item \<in> set (active_batch (reclaimed (terminated_ids rs) s))) \<and>
    (\<forall>s'. stream_responses_to_frontend (Some rs) (reclaimed (terminated_ids rs) s) = Inr s' \<longrightarrow>
       active_batch s' = active_batch (reclaimed (terminated_ids rs) s) \<and>
       available_cache_indices s' = available_cache_indices (reclaimed (terminated_ids rs) s))"
proof (intro conjI)
  show "handle_terminated_responses (Some rs) s = Inr (reclaimed (terminated_ids rs) s)"
    using handle_terminated_loop_ok [OF assms] by (simp add: handle_terminated_responses_def)
  show "distinct (terminated_ids rs)"
    using assms(1) by (simp add: terminated_ids_def distinct_map_filter)
  show "calls (reclaimed (terminated_ids rs) s) =
      calls s @ map (\<lambda>rid. Release (the (map_of (active_batch s) rid))) (terminated_ids rs)"
    by (simp add: reclaimed_def)
  show "\<forall>item \<in> set rs. is_done (snd item) \<longrightarrow>
       fst item \<notin> fst ` set (active_batch (reclaimed (terminated_ids rs) s)) \<and>
       the (cache_seq_id (the (map_of (active_batch s) (fst item))))
         \<in> available_cache_indices (reclaimed (terminated_ids rs) s)"
  proof (intro ballI impI)
    fix item assume "item \<in> set rs" "is_done (snd item)"
    then have "fst item \<in> set (terminated_ids rs)"
      by (auto simp: terminated_ids_def)
    then show "fst item \<notin> fst ` set (active_batch (reclaimed (terminated_ids rs) s)) \<and>
       the (cache_seq_id (the (map_of (active_batch s) (fst item))))
         \<in> available_cache_indices (reclaimed (terminated_ids rs) s)"
      by (auto simp: reclaimed_def)
  qed
  show "\<forall>item \<in> set (active_batch s). fst item \<notin> set (terminated_ids rs) \<longrightarrow>
       item \<in> set (active_batch (reclaimed (terminated_ids rs) s))"
    by (simp add: reclaimed_def)
  show "\<forall>s'. stream_responses_to_frontend (Some rs) (reclaimed (terminated_ids rs) s) = Inr s' \<longrightarrow>
       active_batch s' = active_batch (reclaimed (terminated_ids rs) s) \<and>
       available_cache_indices s' = available_cache_indices (reclaimed (terminated_ids rs) s)"
    using stream_responses_frame by blast
qed

theorem reclamation_witness:
  "distinct (map fst finishing)
   \<and> list_all (\<lambda>item. is_done (snd item) = (fst item = ''R2'')) finishing
   \<and> map_of (active_batch admitted) ''R2'' = Some (ctx (Some 0) None 0)
   \<and> cache_seq_id (ctx (Some 0) None 0) = Some 0
   \<and> handle_terminated_responses (Some finishing) admitted = Inr finished
   \<and> reclaimed (terminated_ids finishing) admitted = finished
   \<and> ''R2'' \<notin> fst ` set (active_batch finished)
   \<and> 0 \<in> available_cache_indices finished
   \<and> filter is_Release (calls finished) = [Release (ctx (Some 0) None 0)]"
  using reclamation [of finishing admitted]
  by (simp add: handle_terminated_responses_def finishing_def admitted_def finished_def
      reclaimed_def terminated_ids_def ctx_def)

section \<open>Slot conservation: results\<close>

lemma int_range_2: "{0 ..< (2::int)} = {0, 1}"
  by auto


text \<open>
  For requests that arrive without assignment the claim holds. The rest of this section
  shows it: the partition, together with the condition that the waiting requests hold no
  slot and have ids of their own, is kept by every phase of a cycle.
\<close>

lemma update_fresh:
  "k \<notin> fst ` set al \<Longrightarrow> AList.update k v al = al @ [(k, v)]"
  by (induction al) auto

lemma slots_partitioned_finite:
  "slots_partitioned e s \<Longrightarrow> finite (available_cache_indices s)"
proof -
  assume "slots_partitioned e s"
  then have "available_cache_indices s \<subseteq> {0 ..< max_batch_size_tg (scheduler_config e)}"
    by (auto simp: slots_partitioned_def)
  then show ?thesis by (rule finite_subset) simp
qed

lemma slots_partitioned_init: "slots_partitioned e (init e inbound)"
  by (simp add: slots_partitioned_def init_def claimed_slots_def)

lemma slots_partitioned_counts:
  assumes "slots_partitioned e s"
  shows "card (available_cache_indices s) + card (claimed_slots s)
      = nat (max_batch_size_tg (scheduler_config e))"
    and "length (active_batch s) = card (claimed_slots s)"
    and "length (active_batch s) \<le> nat (max_batch_size_tg (scheduler_config e))"
proof -
  let ?A = "available_cache_indices s" and ?C = "claimed_slots s"
  have fin: "finite ?A" "finite ?C"
    using slots_partitioned_finite [OF assms] by (simp_all add: claimed_slots_def)
  have dj: "?A \<inter> ?C = {}" and un: "?A \<union> ?C = {0 ..< max_batch_size_tg (scheduler_config e)}"
    using assms by (simp_all add: slots_partitioned_def)
  have "card ?A + card ?C = card (?A \<union> ?C)"
    using fin dj by (simp add: card_Un_disjoint)
  then show sum: "card ?A + card ?C = nat (max_batch_size_tg (scheduler_config e))"
    using un by simp
  have "distinct (map slot_of (active_batch s))"
    using assms by (simp add: slots_partitioned_def)
  then have "card ?C = length (map slot_of (active_batch s))"
    unfolding claimed_slots_def by (rule distinct_card)
  then show len: "length (active_batch s) = card ?C" by simp
  from sum len show "length (active_batch s) \<le> nat (max_batch_size_tg (scheduler_config e))"
    by simp
qed


lemma pull_waiting:
  assumes "pull_from_decode_socket s = Inr (item, s1)"
  shows "waiting_requests s = item # waiting_requests s1 \<and>
    active_batch s1 = active_batch s \<and>
    available_cache_indices s1 = available_cache_indices s"
  using pull_cases [OF assms] by (cases item) (auto simp: waiting_requests_def)

lemma admit_request_partitioned:
  assumes inv: "slots_partitioned e s"
    and pop: "pop_takes_member e"
    and ne: "available_cache_indices s \<noteq> {}"
    and un: "cache_seq_id c = None"
    and fresh: "rid \<notin> fst ` set (active_batch s)"
  shows "slots_partitioned e (admit_request e rid c s)"
proof -
  let ?A = "available_cache_indices s"
  let ?i = "set_pop e ?A"
  let ?c' = "assign_to_cache c ?i"
  have iA: "?i \<in> ?A"
    using pop ne slots_partitioned_finite [OF inv] by (simp add: pop_takes_member_def)
  have dj: "?A \<inter> claimed_slots s = {}"
    and u: "?A \<union> claimed_slots s = {0 ..< max_batch_size_tg (scheduler_config e)}"
    using inv by (simp_all add: slots_partitioned_def)
  from iA dj have iC: "?i \<notin> claimed_slots s" by auto
  have ab: "active_batch (admit_request e rid c s) = active_batch s @ [(rid, ?c')]"
    using un fresh by (simp add: admit_request_def is_assigned_to_cache_def Let_def update_fresh)
  have av: "available_cache_indices (admit_request e rid c s) = ?A - {?i}"
    using un by (simp add: admit_request_def is_assigned_to_cache_def Let_def)
  have sl: "slot_of (rid, ?c') = ?i"
    by (simp add: slot_of_def assign_to_cache_def)
  have cl: "claimed_slots (admit_request e rid c s) = insert ?i (claimed_slots s)"
    using ab sl by (simp add: claimed_slots_def)
  have 1: "distinct (map fst (active_batch (admit_request e rid c s)))"
    using inv fresh ab by (simp add: slots_partitioned_def)
  have 2: "list_all (\<lambda>item. cache_seq_id (snd item) \<noteq> None)
      (active_batch (admit_request e rid c s))"
    using inv ab by (simp add: slots_partitioned_def assign_to_cache_def)
  have 3: "distinct (map slot_of (active_batch (admit_request e rid c s)))"
    using inv ab sl iC by (simp add: slots_partitioned_def claimed_slots_def)
  have 4: "available_cache_indices (admit_request e rid c s)
      \<inter> claimed_slots (admit_request e rid c s) = {}"
    using dj av cl by auto
  have 5: "available_cache_indices (admit_request e rid c s)
      \<union> claimed_slots (admit_request e rid c s)
      = {0 ..< max_batch_size_tg (scheduler_config e)}"
    using u iA av cl by auto
  from 1 2 3 4 5 show ?thesis by (simp add: slots_partitioned_def)
qed

lemma admit_request_waiting [simp]:
  "waiting_requests (admit_request e rid c s) = waiting_requests s"
  by (simp add: waiting_requests_def)

lemma update_batch_fill_partitioned:
  "update_batch_fill e s = Inr s' \<Longrightarrow> slots_partitioned e s \<Longrightarrow> arrive_unassigned s \<Longrightarrow>
   pop_takes_member e \<Longrightarrow> slots_partitioned e s' \<and> arrive_unassigned s'"
proof (induction e s rule: update_batch_fill.induct)
  case (1 e s)
  from update_batch_fill_cases [OF "1.prems"(1)] show ?case
  proof (elim disjE exE conjE)
    assume "s' = s"
    with "1.prems"(2,3) show ?thesis by simp
  next
    fix item s1
    assume ne: "available_cache_indices s \<noteq> {}"
      and p: "pull_from_decode_socket s = Inr (item, s1)"
      and f: "update_batch_fill e (admit_request e (fst item) (snd item) s1) = Inr s'"
    let ?s2 = "admit_request e (fst item) (snd item) s1"
    from pull_waiting [OF p] have w: "waiting_requests s = item # waiting_requests s1"
      and ab: "active_batch s1 = active_batch s"
      and av: "available_cache_indices s1 = available_cache_indices s" by simp_all
    from "1.prems"(3) w have un: "cache_seq_id (snd item) = None"
      and rest: "list_all (\<lambda>item. cache_seq_id (snd item) = None) (waiting_requests s1)"
      and d: "distinct (map fst (active_batch s) @ fst item # map fst (waiting_requests s1))"
      by (simp_all add: arrive_unassigned_def)
    from d have fresh: "fst item \<notin> fst ` set (active_batch s1)"
      using ab by auto
    have inv1: "slots_partitioned e s1"
      using "1.prems"(2) ab av by (simp add: slots_partitioned_def claimed_slots_def)
    have ne1: "available_cache_indices s1 \<noteq> {}" using ne av by simp
    have inv2: "slots_partitioned e ?s2"
      by (rule admit_request_partitioned [OF inv1 "1.prems"(4) ne1 un fresh])
    have ab2: "map fst (active_batch ?s2) = map fst (active_batch s) @ [fst item]"
      using fresh ab by (simp add: admit_request_keys)
    have H2: "arrive_unassigned ?s2"
      using rest d ab2 by (simp add: arrive_unassigned_def)
    show ?thesis
      by (rule "1.IH" [OF ne p refl prod.collapse f inv2 H2 "1.prems"(4)])
  qed
qed

lemma preempt_from_partitioned:
  assumes "slots_partitioned e s"
  shows "slots_partitioned e ((preempt_from e m s)\<lparr>calls := l\<rparr>)"
proof -
  let ?al = "active_batch s"
  have al: "take m ?al @ drop m ?al = ?al" by simp
  have d1: "distinct (map fst ?al)" and as: "list_all (\<lambda>item. cache_seq_id (snd item) \<noteq> None) ?al"
    and d2: "distinct (map slot_of ?al)"
    and dj: "available_cache_indices s \<inter> set (map slot_of ?al) = {}"
    and un: "available_cache_indices s \<union> set (map slot_of ?al)
        = {0 ..< max_batch_size_tg (scheduler_config e)}"
    using assms by (simp_all add: slots_partitioned_def claimed_slots_def)
  have "distinct (map slot_of (take m ?al) @ map slot_of (drop m ?al))"
    using d2 by (metis al map_append)
  then have tdj: "set (map slot_of (take m ?al)) \<inter> set (map slot_of (drop m ?al)) = {}"
    and dt: "distinct (map slot_of (take m ?al))" by auto
  have su: "set (map slot_of ?al) = set (map slot_of (take m ?al)) \<union> set (map slot_of (drop m ?al))"
    by (metis al map_append set_append)
  have 1: "distinct (map fst (take m ?al))"
    using d1 by (simp add: take_map [symmetric] distinct_take)
  have 2: "list_all (\<lambda>item. cache_seq_id (snd item) \<noteq> None) (take m ?al)"
    using as by (auto simp: list_all_iff dest: in_set_takeD)
  have 4: "(available_cache_indices s \<union> set (map slot_of (drop m ?al)))
      \<inter> set (map slot_of (take m ?al)) = {}"
    using dj tdj su by auto
  have 5: "(available_cache_indices s \<union> set (map slot_of (drop m ?al)))
      \<union> set (map slot_of (take m ?al)) = {0 ..< max_batch_size_tg (scheduler_config e)}"
    using un su by auto
  from 1 2 dt 4 5 show ?thesis
    by (simp add: slots_partitioned_def preempt_from_def claimed_slots_def)
qed

lemma preempt_from_arrive_unassigned:
  assumes "arrive_unassigned s" and "reset_unassigns e"
  shows "arrive_unassigned ((preempt_from e m s)\<lparr>calls := l\<rparr>)"
proof -
  let ?al = "active_batch s"
  let ?P = "preempted_decode s" and ?V = "delivered (decode_pull_socket s)"
  have w: "waiting_requests ((preempt_from e m s)\<lparr>calls := l\<rparr>)
      = ?P @ map (requeued e) (rev (drop m ?al)) @ ?V"
    by (simp add: waiting_requests_def preempt_from_def)
  have ab: "active_batch ((preempt_from e m s)\<lparr>calls := l\<rparr>) = take m ?al"
    by (simp add: preempt_from_def)
  have un: "list_all (\<lambda>item. cache_seq_id (snd item) = None) (?P @ ?V)"
    and d: "distinct (map fst ?al @ map fst ?P @ map fst ?V)"
    using assms(1) by (simp_all add: arrive_unassigned_def waiting_requests_def)
  have rq: "list_all (\<lambda>item. cache_seq_id (snd item) = None) (map (requeued e) (rev (drop m ?al)))"
    using assms(2) by (simp add: reset_unassigns_def requeued_def list_all_iff)
  have fr: "map fst (map (requeued e) (rev (drop m ?al))) = rev (map fst (drop m ?al))"
    by (simp add: requeued_def rev_map comp_def)
  have "map fst ?al = map fst (take m ?al) @ map fst (drop m ?al)"
    by (metis append_take_drop_id map_append)
  with d have "distinct ((map fst (take m ?al) @ map fst (drop m ?al)) @ map fst ?P @ map fst ?V)"
    by simp
  then have "distinct (map fst (take m ?al) @ map fst ?P @ rev (map fst (drop m ?al)) @ map fst ?V)"
    by auto
  then show ?thesis
    using un rq fr unfolding arrive_unassigned_def w ab by simp
qed

lemma update_batch_partitioned:
  assumes "update_batch e s = Inr s'" "slots_partitioned e s" "arrive_unassigned s"
    "pop_takes_member e" "reset_unassigns e"
  shows "slots_partitioned e s' \<and> arrive_unassigned s'"
proof -
  from assms(1) obtain s1 where f: "update_batch_fill e s = Inr s1"
    and r: "update_batch_reserve e s1 (map fst (active_batch s1)) = Inr s'"
    by (auto simp: update_batch_def split: sum.splits)
  from update_batch_fill_partitioned [OF f assms(2,3,4)]
  have inv1: "slots_partitioned e s1" and H1: "arrive_unassigned s1" by simp_all
  from inv1 have d: "distinct (map fst (active_batch s1))"
    and a: "\<forall>item \<in> set (active_batch s1). cache_seq_id (snd item) \<noteq> None"
    by (simp_all add: slots_partitioned_def list_all_iff)
  have k: "map fst (active_batch s1) = [] @ map fst (active_batch s1)" by simp
  from reserve_suffix [OF d k a, of e] r obtain m new where
    "s' = (preempt_from e m s1)\<lparr>calls := calls s1 @ new\<rparr>" by auto
  then show ?thesis
    using preempt_from_partitioned [OF inv1] preempt_from_arrive_unassigned [OF H1 assms(5)]
    by simp
qed

text \<open>With it the bound of claim C5 holds: a phase that follows the admission of
  requests without assignment evicts at most \<open>max_batch_size_tg\<close> requests.\<close>

lemma eviction_bound_unassigned:
  assumes "slots_partitioned e s" "arrive_unassigned s" "pop_takes_member e"
    and "update_batch_fill e s = Inr s1"
  shows "\<exists>s' new.
    update_batch e s = Inr s' \<and> calls s' = calls s1 @ new \<and>
    length (filter is_Prefetch new) \<le> nat (max_batch_size_tg (scheduler_config e)) \<and>
    length (filter is_Release new) \<le> nat (max_batch_size_tg (scheduler_config e))"
proof -
  from update_batch_fill_partitioned [OF assms(4,1,2,3)]
  have inv1: "slots_partitioned e s1" by simp
  then have d: "distinct (map fst (active_batch s1))"
    and a: "\<forall>item \<in> set (active_batch s1). cache_seq_id (snd item) \<noteq> None"
    by (simp_all add: slots_partitioned_def list_all_iff)
  have cap: "length (active_batch s1) \<le> nat (max_batch_size_tg (scheduler_config e))"
    by (rule slots_partitioned_counts(3) [OF inv1])
  from reservation_terminates [OF d a, of e] obtain s' new where
    r: "update_batch_reserve e s1 (map fst (active_batch s1)) = Inr s'" and
    c: "calls s' = calls s1 @ new" and
    p: "length (filter is_Prefetch new) = length (active_batch s1)" and
    e: "length (filter is_Release new) \<le> length (active_batch s1)"
    by blast
  have "update_batch e s = Inr s'" using assms(4) r by (simp add: update_batch_def)
  with c p e cap show ?thesis
    by (intro exI [of _ s'] exI [of _ new]) simp
qed

lemma delete_filter: "AList.delete k al = filter (\<lambda>item. fst item \<noteq> k) al"
  by (induction al) auto

lemma release_partitioned:
  assumes inv: "slots_partitioned e s"
    and c: "map_of (active_batch s) rid = Some c"
    and i: "cache_seq_id c = Some i"
  shows "slots_partitioned e
    (s\<lparr>calls := l, available_cache_indices := insert i (available_cache_indices s),
       active_batch := AList.delete rid (active_batch s)\<rparr>)"
proof -
  let ?al = "active_batch s"
  let ?al' = "filter (\<lambda>item. fst item \<noteq> rid) ?al"
  have del: "AList.delete rid ?al = ?al'"
    by (rule delete_filter)
  have d1: "distinct (map fst ?al)" and as: "list_all (\<lambda>item. cache_seq_id (snd item) \<noteq> None) ?al"
    and d2: "distinct (map slot_of ?al)"
    and dj: "available_cache_indices s \<inter> set (map slot_of ?al) = {}"
    and un: "available_cache_indices s \<union> set (map slot_of ?al)
        = {0 ..< max_batch_size_tg (scheduler_config e)}"
    using inv by (simp_all add: slots_partitioned_def claimed_slots_def)
  have mem: "(rid, c) \<in> set ?al" using c by (rule map_of_SomeD)
  have si: "slot_of (rid, c) = i" using i by (simp add: slot_of_def)
  have inj: "inj_on slot_of (set ?al)" using d2 by (simp add: distinct_map)
  have only: "item = (rid, c)" if "item \<in> set ?al" "fst item = rid" for item
  proof -
    have "map_of ?al (fst item) = Some (snd item)"
      using d1 that(1) by (cases item) simp
    with c that(2) show ?thesis by (cases item) simp
  qed
  have C': "set (map slot_of ?al') = set (map slot_of ?al) - {i}"
  proof (intro equalityI subsetI)
    fix x assume "x \<in> set (map slot_of ?al')"
    then obtain item where it: "item \<in> set ?al" "fst item \<noteq> rid" "x = slot_of item" by auto
    then have "item \<noteq> (rid, c)" by auto
    with inj it(1) mem have "slot_of item \<noteq> slot_of (rid, c)" by (auto dest: inj_onD)
    with it si show "x \<in> set (map slot_of ?al) - {i}" by auto
  next
    fix x assume "x \<in> set (map slot_of ?al) - {i}"
    then obtain item where it: "item \<in> set ?al" "x = slot_of item" "x \<noteq> i" by auto
    have "fst item \<noteq> rid"
    proof
      assume "fst item = rid"
      from only [OF it(1) this] it(2,3) si show False by simp
    qed
    with it show "x \<in> set (map slot_of ?al')" by auto
  qed
  have iC: "i \<in> set (map slot_of ?al)" using mem si by force
  have 1: "distinct (map fst ?al')" using d1 by (simp add: distinct_map_filter)
  have 2: "list_all (\<lambda>item. cache_seq_id (snd item) \<noteq> None) ?al'"
    using as by (simp add: list_all_iff)
  have 3: "distinct (map slot_of ?al')" using d2 by (simp add: distinct_map_filter)
  have 4: "insert i (available_cache_indices s) \<inter> set (map slot_of ?al') = {}"
    using dj C' by auto
  have 5: "insert i (available_cache_indices s) \<union> set (map slot_of ?al')
      = {0 ..< max_batch_size_tg (scheduler_config e)}"
    using un C' iC by auto
  from 1 2 3 4 5 show ?thesis
    by (simp add: slots_partitioned_def claimed_slots_def del)
qed

lemma handle_terminated_loop_partitioned:
  "handle_terminated_loop rs s = Inr s' \<Longrightarrow> slots_partitioned e s \<Longrightarrow> slots_partitioned e s'"
proof (induction rs arbitrary: s)
  case Nil
  then show ?case by simp
next
  case (Cons item rs)
  obtain rid r where item: "item = (rid, r)" by (cases item)
  show ?case
  proof (cases "is_done r")
    case False
    with Cons item show ?thesis by simp
  next
    case True
    from Cons.prems(1) True item obtain c where c: "map_of (active_batch s) rid = Some c"
      by (auto split: option.splits)
    from Cons.prems(1) True item c obtain i where i: "cache_seq_id c = Some i"
      by (auto split: option.splits)
    let ?s1 = "s\<lparr>calls := calls s @ [Release c],
                  available_cache_indices := insert i (available_cache_indices s),
                  active_batch := AList.delete rid (active_batch s)\<rparr>"
    have "handle_terminated_loop rs ?s1 = Inr s'"
      using Cons.prems(1) True item c i by simp
    moreover have "slots_partitioned e ?s1"
      by (rule release_partitioned [OF Cons.prems(2) c i])
    ultimately show ?thesis by (rule Cons.IH)
  qed
qed

lemma handle_terminated_loop_arrive_unassigned:
  "handle_terminated_loop rs s = Inr s' \<Longrightarrow> arrive_unassigned s \<Longrightarrow> arrive_unassigned s'"
proof (induction rs arbitrary: s)
  case Nil
  then show ?case by simp
next
  case (Cons item rs)
  obtain rid r where item: "item = (rid, r)" by (cases item)
  show ?case
  proof (cases "is_done r")
    case False
    with Cons item show ?thesis by simp
  next
    case True
    from Cons.prems(1) True item obtain c where c: "map_of (active_batch s) rid = Some c"
      by (auto split: option.splits)
    from Cons.prems(1) True item c obtain i where i: "cache_seq_id c = Some i"
      by (auto split: option.splits)
    let ?s1 = "s\<lparr>calls := calls s @ [Release c],
                  available_cache_indices := insert i (available_cache_indices s),
                  active_batch := AList.delete rid (active_batch s)\<rparr>"
    have "handle_terminated_loop rs ?s1 = Inr s'"
      using Cons.prems(1) True item c i by simp
    moreover have "arrive_unassigned ?s1"
      using Cons.prems(2)
      by (auto simp: arrive_unassigned_def waiting_requests_def delete_keys distinct_removeAll)
    ultimately show ?thesis by (rule Cons.IH)
  qed
qed

lemma stream_responses_socket:
  assumes "stream_responses_to_frontend responses s = Inr s'"
  shows "decode_pull_socket s' = decode_pull_socket s"
  using assms
  by (auto simp: stream_responses_to_frontend_def split: option.splits list.splits sum.splits)

lemma delivered_append:
  "delivered (ds @ [Delivered rid c]) = delivered ds @ [(rid, c)]"
  by (induction ds rule: delivered.induct) simp_all


text \<open>
  The partition over the cycles: it holds in the initial scheduler, and
  \<^verbatim>\<open>update_batch\<close>, \<^verbatim>\<open>_handle_terminated_responses\<close>,
  \<^verbatim>\<open>stream_responses_to_frontend\<close> and the arrival of a request without assignment
  under an id of its own keep it, together with the condition on the waiting requests
  (which the reset of a preempted context re-establishes). Where it holds, the free and
  the claimed ids add up to \<open>max_batch_size_tg\<close>, every active member holds a slot of its
  own, and the active batch is within the capacity.
\<close>

lemma slot_partition_kept:
  "(list_all (\<lambda>item. cache_seq_id (snd item) = None) (delivered inbound) \<and>
    distinct (map fst (delivered inbound))
      \<longrightarrow> slots_partitioned e (init e inbound) \<and> arrive_unassigned (init e inbound)) \<and>
   (slots_partitioned e s \<and> arrive_unassigned s \<and> pop_takes_member e \<and> reset_unassigns e \<and>
      update_batch e s = Inr s' \<longrightarrow> slots_partitioned e s' \<and> arrive_unassigned s') \<and>
   (slots_partitioned e s \<and> arrive_unassigned s \<and>
      handle_terminated_responses responses s = Inr s'
      \<longrightarrow> slots_partitioned e s' \<and> arrive_unassigned s') \<and>
   (slots_partitioned e s \<and> arrive_unassigned s \<and>
      stream_responses_to_frontend responses s = Inr s'
      \<longrightarrow> slots_partitioned e s' \<and> arrive_unassigned s') \<and>
   (slots_partitioned e s \<and> arrive_unassigned s \<and> cache_seq_id c = None \<and>
      rid \<notin> set (map fst (active_batch s) @ map fst (waiting_requests s))
      \<longrightarrow> slots_partitioned e (s\<lparr>decode_pull_socket := decode_pull_socket s @ [Delivered rid c]\<rparr>) \<and>
          arrive_unassigned (s\<lparr>decode_pull_socket := decode_pull_socket s @ [Delivered rid c]\<rparr>)) \<and>
   (slots_partitioned e s \<longrightarrow>
      int (card (available_cache_indices s) + card (claimed_slots s))
        = max 0 (max_batch_size_tg (scheduler_config e)) \<and>
      available_cache_indices s \<inter> claimed_slots s = {} \<and>
      available_cache_indices s \<union> claimed_slots s
        = {0 ..< max_batch_size_tg (scheduler_config e)} \<and>
      list_all (\<lambda>item. cache_seq_id (snd item) \<noteq> None) (active_batch s) \<and>
      distinct (map slot_of (active_batch s)) \<and>
      length (active_batch s) = card (claimed_slots s) \<and>
      int (length (active_batch s)) \<le> max 0 (max_batch_size_tg (scheduler_config e)))"
proof (intro conjI)
  show "list_all (\<lambda>item. cache_seq_id (snd item) = None) (delivered inbound) \<and>
    distinct (map fst (delivered inbound))
      \<longrightarrow> slots_partitioned e (init e inbound) \<and> arrive_unassigned (init e inbound)"
    by (simp add: slots_partitioned_def claimed_slots_def arrive_unassigned_def
        waiting_requests_def init_def)
  show "slots_partitioned e s \<and> arrive_unassigned s \<and> pop_takes_member e \<and> reset_unassigns e \<and>
      update_batch e s = Inr s' \<longrightarrow> slots_partitioned e s' \<and> arrive_unassigned s'"
    using update_batch_partitioned [of e s s'] by blast
  show "slots_partitioned e s \<and> arrive_unassigned s \<and>
      handle_terminated_responses responses s = Inr s'
      \<longrightarrow> slots_partitioned e s' \<and> arrive_unassigned s'"
    using handle_terminated_loop_partitioned handle_terminated_loop_arrive_unassigned
    by (cases responses) (auto simp: handle_terminated_responses_def)
  show "slots_partitioned e s \<and> arrive_unassigned s \<and>
      stream_responses_to_frontend responses s = Inr s'
      \<longrightarrow> slots_partitioned e s' \<and> arrive_unassigned s'"
  proof
    assume a: "slots_partitioned e s \<and> arrive_unassigned s \<and>
      stream_responses_to_frontend responses s = Inr s'"
    with stream_responses_frame [of responses s s'] stream_responses_socket [of responses s s']
    have "active_batch s' = active_batch s" "available_cache_indices s' = available_cache_indices s"
      "preempted_decode s' = preempted_decode s" "decode_pull_socket s' = decode_pull_socket s"
      by simp_all
    with a show "slots_partitioned e s' \<and> arrive_unassigned s'"
      by (simp add: slots_partitioned_def claimed_slots_def arrive_unassigned_def
          waiting_requests_def)
  qed
  show "slots_partitioned e s \<and> arrive_unassigned s \<and> cache_seq_id c = None \<and>
      rid \<notin> set (map fst (active_batch s) @ map fst (waiting_requests s))
      \<longrightarrow> slots_partitioned e (s\<lparr>decode_pull_socket := decode_pull_socket s @ [Delivered rid c]\<rparr>) \<and>
          arrive_unassigned (s\<lparr>decode_pull_socket := decode_pull_socket s @ [Delivered rid c]\<rparr>)"
    by (auto simp: slots_partitioned_def claimed_slots_def arrive_unassigned_def
        waiting_requests_def delivered_append)
  show "slots_partitioned e s \<longrightarrow>
      int (card (available_cache_indices s) + card (claimed_slots s))
        = max 0 (max_batch_size_tg (scheduler_config e)) \<and>
      available_cache_indices s \<inter> claimed_slots s = {} \<and>
      available_cache_indices s \<union> claimed_slots s
        = {0 ..< max_batch_size_tg (scheduler_config e)} \<and>
      list_all (\<lambda>item. cache_seq_id (snd item) \<noteq> None) (active_batch s) \<and>
      distinct (map slot_of (active_batch s)) \<and>
      length (active_batch s) = card (claimed_slots s) \<and>
      int (length (active_batch s)) \<le> max 0 (max_batch_size_tg (scheduler_config e))"
  proof
    assume inv: "slots_partitioned e s"
    from slots_partitioned_counts [OF inv]
    have 1: "card (available_cache_indices s) + card (claimed_slots s)
        = nat (max_batch_size_tg (scheduler_config e))"
      and 2: "length (active_batch s) = card (claimed_slots s)"
      and 3: "length (active_batch s) \<le> nat (max_batch_size_tg (scheduler_config e))"
      by simp_all
    have "int (card (available_cache_indices s) + card (claimed_slots s))
        = max 0 (max_batch_size_tg (scheduler_config e))"
      unfolding 1 by simp
    moreover have "int (length (active_batch s)) \<le> max 0 (max_batch_size_tg (scheduler_config e))"
      using 3 by simp
    ultimately show "int (card (available_cache_indices s) + card (claimed_slots s))
        = max 0 (max_batch_size_tg (scheduler_config e)) \<and>
      available_cache_indices s \<inter> claimed_slots s = {} \<and>
      available_cache_indices s \<union> claimed_slots s
        = {0 ..< max_batch_size_tg (scheduler_config e)} \<and>
      list_all (\<lambda>item. cache_seq_id (snd item) \<noteq> None) (active_batch s) \<and>
      distinct (map slot_of (active_batch s)) \<and>
      length (active_batch s) = card (claimed_slots s) \<and>
      int (length (active_batch s)) \<le> max 0 (max_batch_size_tg (scheduler_config e))"
      using inv 2 by (simp add: slots_partitioned_def)
  qed
qed

lemma slot_partition_kept_example:
  "slots_partitioned example_env waiting
   \<and> arrive_unassigned waiting
   \<and> pop_takes_member example_env
   \<and> reset_unassigns example_env
   \<and> update_batch example_env waiting = Inr reserved
   \<and> slots_partitioned example_env reserved
   \<and> arrive_unassigned reserved
   \<and> handle_terminated_responses (Some finishing) reserved
        = Inr (reclaimed [''R2''] reserved)
   \<and> slots_partitioned example_env (reclaimed [''R2''] reserved)
   \<and> card (available_cache_indices reserved) + card (claimed_slots reserved) = 2"
proof -
  have pop: "pop_takes_member example_env"
    by (simp add: pop_takes_member_def example_env_def)
  have rs: "reset_unassigns example_env"
    by (simp add: reset_unassigns_def example_env_def)
  have w: "slots_partitioned example_env waiting"
    by (simp add: slots_partitioned_def waiting_def claimed_slots_def example_env_def int_range_2)
  have a: "arrive_unassigned waiting"
    by (simp add: arrive_unassigned_def waiting_requests_def waiting_def ctx_def)
  have u: "update_batch example_env waiting = Inr reserved"
    by (simp add: update_batch_def update_batch_fill.simps pull_from_decode_socket_def
      admit_request_def is_assigned_to_cache_def assign_to_cache_def update_batch_reserve.simps
      waiting_def reserved_def admitted_def example_defs)
  have h: "handle_terminated_responses (Some finishing) reserved
        = Inr (reclaimed [''R2''] reserved)"
    by (simp add: handle_terminated_responses_def finishing_def reserved_def admitted_def
      reclaimed_def ctx_def)
  have "slots_partitioned example_env waiting \<and> arrive_unassigned waiting \<and>
      pop_takes_member example_env \<and> reset_unassigns example_env \<and>
      update_batch example_env waiting = Inr reserved
      \<longrightarrow> slots_partitioned example_env reserved \<and> arrive_unassigned reserved"
    by (rule slot_partition_kept [of _ example_env waiting reserved "Some finishing",
        THEN conjunct2, THEN conjunct1])
  with w a pop rs u have r: "slots_partitioned example_env reserved"
    and ra: "arrive_unassigned reserved" by simp_all
  have "slots_partitioned example_env reserved \<and> arrive_unassigned reserved \<and>
      handle_terminated_responses (Some finishing) reserved = Inr (reclaimed [''R2''] reserved)
      \<longrightarrow> slots_partitioned example_env (reclaimed [''R2''] reserved) \<and>
          arrive_unassigned (reclaimed [''R2''] reserved)"
    by (rule slot_partition_kept
        [of _ example_env reserved "reclaimed [''R2''] reserved" "Some finishing",
         THEN conjunct2, THEN conjunct2, THEN conjunct1])
  with r ra h have r2: "slots_partitioned example_env (reclaimed [''R2''] reserved)" by simp
  have "card (available_cache_indices reserved) + card (claimed_slots reserved)
      = nat (max_batch_size_tg (scheduler_config example_env))"
    by (rule slots_partitioned_counts(1) [OF r])
  then have "card (available_cache_indices reserved) + card (claimed_slots reserved) = 2"
    by (simp add: example_env_def)
  with w a pop rs u r ra h r2 show ?thesis by simp
qed

end
